theory Spec2Isabelle
  imports Main
begin

section \<open>Strings as the program sees them\<close>

text \<open>
  A JavaScript string is modelled as a \<^typ>\<open>string\<close>; a \<^typ>\<open>char\<close> stands for one
  UTF-16 code unit below 256 (ASCII and Latin-1), which covers host names, paths and the
  descriptor files' syntax.
\<close>

definition isWhiteSpace :: "char \<Rightarrow> bool" where
  \<comment> \<open>what \<open>String.prototype.trim\<close> strips: TAB, LF, VT, FF, CR, SP, NBSP\<close>
  "isWhiteSpace c = (let n = (of_char c :: nat) in (9 \<le> n \<and> n \<le> 13) \<or> n = 32 \<or> n = 160)"

definition trim :: "string \<Rightarrow> string" where
  "trim s = rev (dropWhile isWhiteSpace (rev (dropWhile isWhiteSpace s)))"

definition toLowerChar :: "char \<Rightarrow> char" where
  "toLowerChar c =
     (let n = (of_char c :: nat)
      in if (65 \<le> n \<and> n \<le> 90) \<or> (192 \<le> n \<and> n \<le> 222 \<and> n \<noteq> 215)
         then char_of (n + 32) else c)"

definition toLowerCase :: "string \<Rightarrow> string" where
  "toLowerCase s = map toLowerChar s"

definition startsWith :: "string \<Rightarrow> string \<Rightarrow> bool" where
  "startsWith s p = (take (length p) s = p)"

definition endsWith :: "string \<Rightarrow> string \<Rightarrow> bool" where
  "endsWith s p = (length p \<le> length s \<and> drop (length s - length p) s = p)"

section \<open>Certificate patterns\<close>

definition domainMatchesPattern :: "string \<Rightarrow> string \<Rightarrow> bool" where
  "domainMatchesPattern domain pattern =
     (let d = toLowerCase domain; p = toLowerCase pattern
      in if d = [] \<or> p = [] then False
         else if startsWith p ''*.''
              then (let suffix = drop 1 p in endsWith d suffix \<and> length d > length suffix)
              else d = p)"

section \<open>Routing table and request dispatcher\<close>

record response =
  statusCode :: nat
  headers :: "string \<rightharpoonup> string"
  headersSent :: bool
  body :: "string option"

record request =
  hostHeader :: "string option"
  url :: string

text \<open>
  A hosted handler is an arbitrary callable \<open>app(req, res, next)\<close>. Its behaviour on a
  request is modelled by the response state it leaves behind and by the one thing it does
  to give control back: it calls \<open>next()\<close>, calls \<open>next(err)\<close>, throws
  synchronously, or returns without calling its continuation (it has answered, or it never
  will). The value passed to \<open>next\<close> and the value thrown are strings; the continuation
  tests \<open>if(err)\<close>, and the empty string is the falsy one.
\<close>

datatype signal = CallsNext | CallsNextErr string | Throws string | Returns

type_synonym handler = "request \<Rightarrow> response \<Rightarrow> response \<times> signal"

record mapping =
  app :: handler
  source :: string
  kind :: string

record appDescriptor =
  ad_domains :: "string list"
  ad_app :: handler
  ad_filename :: string
  ad_kind :: "string option"

record certEntry =
  ce_domains :: "string list"
  ce_source :: string

text \<open>What the dispatcher does that an observer can see besides the response:
  the handlers it invokes (kind, provenance, and the response state handed to them) and
  the errors it logs (host name, provenance, error).\<close>

datatype event = Invoked string string response | ErrorLogged string string string

definition setHeader :: "string \<Rightarrow> string \<Rightarrow> response \<Rightarrow> response" where
  \<comment> \<open>header names are case-insensitive: stored under the lower-cased name\<close>
  "setHeader name v res = res\<lparr>headers := (headers res)(toLowerCase name \<mapsto> v)\<rparr>"

definition getHeader :: "string \<Rightarrow> response \<Rightarrow> string option" where
  "getHeader name res = headers res (toLowerCase name)"

definition endResponse :: "string \<Rightarrow> response \<Rightarrow> response" where
  \<comment> \<open>\<open>res.end(data)\<close>: the head goes out with the body\<close>
  "endResponse data res = res\<lparr>headersSent := True, body := Some data\<rparr>"

definition attachDomain ::
  "handler \<Rightarrow> string \<Rightarrow> string \<Rightarrow> string \<Rightarrow> (string \<rightharpoonup> mapping list) \<Rightarrow> (string \<rightharpoonup> mapping list)" where
  "attachDomain a filename effectiveKind domain domainToApps =
     (let normalized = toLowerCase (trim domain)
      in if normalized = [] then domainToApps
         else (let list = (case domainToApps normalized of None \<Rightarrow> [] | Some l \<Rightarrow> l)
               in domainToApps(normalized \<mapsto>
                    list @ [\<lparr>app = a, source = filename, kind = effectiveKind\<rparr>])))"

definition effectiveKindOf :: "string \<Rightarrow> string option \<Rightarrow> string" where
  \<comment> \<open>\<open>kindOverride || kind || 'express'\<close>; the empty string is falsy\<close>
  "effectiveKindOf kindOverride k =
     (if kindOverride \<noteq> [] then kindOverride
      else case k of None \<Rightarrow> ''express'' | Some k' \<Rightarrow> if k' \<noteq> [] then k' else ''express'')"

definition attachDescriptor ::
  "string \<Rightarrow> appDescriptor \<Rightarrow> (string \<rightharpoonup> mapping list) \<Rightarrow> (string \<rightharpoonup> mapping list)" where
  "attachDescriptor kindOverride d domainToApps =
     fold (attachDomain (ad_app d) (ad_filename d) (effectiveKindOf kindOverride (ad_kind d)))
          (ad_domains d) domainToApps"

definition attachDescriptors ::
  "appDescriptor list \<Rightarrow> string \<Rightarrow> (string \<rightharpoonup> mapping list) \<Rightarrow> (string \<rightharpoonup> mapping list)" where
  "attachDescriptors descriptors kindOverride domainToApps =
     fold (attachDescriptor kindOverride) descriptors domainToApps"

definition buildDomainAppMap ::
  "appDescriptor list \<Rightarrow> appDescriptor list \<Rightarrow> appDescriptor list \<Rightarrow> (string \<rightharpoonup> mapping list)" where
  \<comment> \<open>priority: proxies, then statics, then express servers\<close>
  "buildDomainAppMap serverDescriptors staticAppDescriptors proxyAppDescriptors =
     attachDescriptors serverDescriptors ''express''
       (attachDescriptors staticAppDescriptors ''static''
          (attachDescriptors proxyAppDescriptors ''proxy'' Map.empty))"


definition hostnameOf :: "request \<Rightarrow> string" where
  \<comment> \<open>\<open>(req.headers.host || '').split(':')[0].toLowerCase()\<close>\<close>
  "hostnameOf req =
     (let hostHeader = (case hostHeader req of None \<Rightarrow> [] | Some h \<Rightarrow> h)
      in toLowerCase (takeWhile (\<lambda>c. c \<noteq> CHR '':'') hostHeader))"

definition plainText :: "nat \<Rightarrow> string \<Rightarrow> response \<Rightarrow> response" where
  "plainText code msg res =
     endResponse msg (setHeader ''Content-Type'' ''text/plain; charset=utf-8''
       (res\<lparr>statusCode := code\<rparr>))"

text \<open>
  The walk over the handler list. The dispatcher wraps each call \<open>app(req, res, next)\<close> in
  \<open>try\<close>/\<open>catch\<close>: a synchronous throw is the signal \<open>Throws\<close>, which the walk consumes, so
  the dispatcher itself always returns a response state and a log. The continuation handed
  to the handler tests \<open>if(err)\<close> first: a truthy error is logged and, unless the
  head has gone out, answered with 500; a falsy one is a plain \<open>next()\<close>. The transport layer
  hands the dispatcher a response whose head has not been sent; the properties below are
  stated for such a response.
\<close>

function runNextApp ::
  "string \<Rightarrow> request \<Rightarrow> mapping list \<Rightarrow> nat \<Rightarrow> response \<times> event list \<Rightarrow> response \<times> event list" where
  "runNextApp hostname req mappings index (res, log) =
     (if headersSent res then (res, log)
      else if index \<ge> length mappings then (plainText 404 ''Not found'' res, log)
      else (let m = mappings ! index;
                log1 = log @ [Invoked (kind m) (source m) res]
            in case app m req res of
                 (res', CallsNext) \<Rightarrow>
                   if \<not> headersSent res'
                   then runNextApp hostname req mappings (Suc index) (res', log1)
                   else (res', log1)
               | (res', CallsNextErr err) \<Rightarrow>
                   if err \<noteq> []
                   then (let log2 = log1 @ [ErrorLogged hostname (source m) err]
                         in if \<not> headersSent res'
                            then (plainText 500 ''Internal server error.'' res', log2)
                            else (res', log2))
                   else if \<not> headersSent res'
                   then runNextApp hostname req mappings (Suc index) (res', log1)
                   else (res', log1)
               | (res', Throws error) \<Rightarrow>
                   (let log2 = log1 @ [ErrorLogged hostname (source m) error]
                    in if \<not> headersSent res'
                       then runNextApp hostname req mappings (Suc index) (res', log2)
                       else (res', log2))
               | (res', Returns) \<Rightarrow> (res', log1)))"
  by pat_completeness auto
termination
  by (relation "measure (\<lambda>(hostname, req, mappings, index, st). length mappings - index)") auto

declare runNextApp.simps [simp del]

definition securityHeaders :: "string set \<Rightarrow> string \<Rightarrow> response \<Rightarrow> response" where
  \<comment> \<open>the \<open>if(certDomainSet.has(hostname))\<close> statement of the request handler\<close>
  "securityHeaders certDomainSet hostname res =
     (if hostname \<in> certDomainSet
      then setHeader ''Content-Security-Policy'' ''upgrade-insecure-requests''
             (setHeader ''Strict-Transport-Security''
                ''max-age=31536000; includeSubDomains; preload'' res)
      else res)"

definition httpsRequestHandler ::
  "(string \<rightharpoonup> mapping list) \<Rightarrow> string set \<Rightarrow> request \<Rightarrow> response \<Rightarrow> response \<times> event list" where
  "httpsRequestHandler domainToApp certDomainSet req res =
     (let hostname = hostnameOf req;
          mappings = domainToApp hostname;
          res1 = securityHeaders certDomainSet hostname res
      in case mappings of
           None \<Rightarrow> (plainText 502 ''No application configured for this domain.'' res1, [])
         | Some ms \<Rightarrow>
             if ms = []
             then (plainText 502 ''No application configured for this domain.'' res1, [])
             else runNextApp hostname req ms 0 (res1, []))"

subsection \<open>Vocabulary of the dispatcher's properties\<close>

definition declaredBy :: "string \<Rightarrow> string \<Rightarrow> appDescriptor list \<Rightarrow> mapping list" where
  \<comment> \<open>one entry of kind \<open>k\<close> per declaration of \<open>hostname\<close>, in discovery order\<close>
  "declaredBy hostname k ds =
     concat (map (\<lambda>d. map (\<lambda>_. \<lparr>app = ad_app d, source = ad_filename d, kind = k\<rparr>)
                          (filter (\<lambda>domain. toLowerCase (trim domain) = hostname \<and> hostname \<noteq> [])
                                  (ad_domains d))) ds)"

fun invocations :: "event list \<Rightarrow> (string \<times> string) list" where
  "invocations [] = []"
| "invocations (Invoked k s r # evs) = (k, s) # invocations evs"
| "invocations (ErrorLogged h s e # evs) = invocations evs"

fun errorsLogged :: "event list \<Rightarrow> (string \<times> string \<times> string) list" where
  "errorsLogged [] = []"
| "errorsLogged (Invoked k s r # evs) = errorsLogged evs"
| "errorsLogged (ErrorLogged h s e # evs) = (h, s, e) # errorsLogged evs"

fun firstHandedResponse :: "event list \<Rightarrow> response option" where
  "firstHandedResponse [] = None"
| "firstHandedResponse (Invoked k s r # evs) = Some r"
| "firstHandedResponse (ErrorLogged h s e # evs) = firstHandedResponse evs"

text \<open>A handler \<^emph>\<open>defers\<close> when it calls \<open>next()\<close> without having sent the response
  head. \<open>deferRun\<close> runs a list of handlers that all defer, each on the response state
  its predecessor left, and is \<open>None\<close> as soon as one of them does anything else.\<close>

fun deferRun :: "request \<Rightarrow> mapping list \<Rightarrow> response \<Rightarrow> response option" where
  "deferRun req [] res = Some res"
| "deferRun req (m # ms) res =
     (case app m req res of
        (res', CallsNext) \<Rightarrow> if headersSent res' then None else deferRun req ms res'
      | (res', _) \<Rightarrow> None)"

text \<open>\<open>fallRun\<close> is the same for handlers that each hand control back to the walk without
  having sent the response head: by \<open>next()\<close>, by \<open>next(err)\<close> with a falsy \<open>err\<close>, or by
  throwing. It also collects what the throwers threw. A list of handlers is walked to its
  end exactly when \<open>fallRun\<close> has a value on it.\<close>

fun fallRun ::
  "string \<Rightarrow> request \<Rightarrow> mapping list \<Rightarrow> response \<Rightarrow> (response \<times> (string \<times> string \<times> string) list) option" where
  "fallRun hostname req [] res = Some (res, [])"
| "fallRun hostname req (m # ms) res =
     (case app m req res of
        (res', CallsNext) \<Rightarrow> if headersSent res' then None else fallRun hostname req ms res'
      | (res', CallsNextErr err) \<Rightarrow>
          if err = []
          then if headersSent res' then None else fallRun hostname req ms res'
          else None
      | (res', Throws e) \<Rightarrow>
          if headersSent res' then None
          else map_option (\<lambda>(r, errs). (r, (hostname, source m, e) # errs))
                 (fallRun hostname req ms res')
      | (res', _) \<Rightarrow> None)"

text \<open>\<open>absorbThrow m\<close> is the entry \<open>m\<close> with a handler that does to the response what
  \<open>m\<close>'s handler does and calls \<open>next()\<close> where \<open>m\<close>'s handler throws. It is the yardstick
  for what catching a throw means: the dispatcher treats the thrower as this entry, apart
  from the line it logs.\<close>

definition absorbThrow :: "mapping \<Rightarrow> mapping" where
  "absorbThrow m =
     m\<lparr>app := \<lambda>req res. case app m req res of
                             (res', Throws e) \<Rightarrow> (res', CallsNext)
                           | (res', sg) \<Rightarrow> (res', sg)\<rparr>"

definition absorbThrows :: "(string \<rightharpoonup> mapping list) \<Rightarrow> (string \<rightharpoonup> mapping list)" where
  \<comment> \<open>the routing table with every entry's throw replaced by \<open>next()\<close>\<close>
  "absorbThrows domainToApp hostname = map_option (map absorbThrow) (domainToApp hostname)"

definition entriesOf :: "(string \<rightharpoonup> mapping list) \<Rightarrow> string \<Rightarrow> mapping list" where
  "entriesOf tbl h = (case tbl h of None \<Rightarrow> [] | Some l \<Rightarrow> l)"

section \<open>Descriptor files\<close>

subsection \<open>String operations of the parsers\<close>

fun splitLines :: "string \<Rightarrow> string list" where
  \<comment> \<open>\<open>s.split(/\r?\n/)\<close>: a line feed separates, and takes a carriage return right before it along\<close>
  "splitLines [] = [[]]"
| "splitLines (c # cs) =
     (if c = CHR 0x0A then [] # splitLines cs
      else if c = CHR 0x0D \<and> cs \<noteq> [] \<and> hd cs = CHR 0x0A then [] # splitLines (tl cs)
      else (case splitLines cs of [] \<Rightarrow> [[c]] | l # ls \<Rightarrow> (c # l) # ls))"

fun splitOn :: "char \<Rightarrow> string \<Rightarrow> string list" where
  \<comment> \<open>\<open>s.split(c)\<close> for a one-character separator\<close>
  "splitOn sep [] = [[]]"
| "splitOn sep (c # cs) =
     (if c = sep then [] # splitOn sep cs
      else (case splitOn sep cs of [] \<Rightarrow> [[c]] | l # ls \<Rightarrow> (c # l) # ls))"

fun joinWith :: "string \<Rightarrow> string list \<Rightarrow> string" where
  \<comment> \<open>\<open>lines.join(sep)\<close>\<close>
  "joinWith sep [] = []"
| "joinWith sep [l] = l"
| "joinWith sep (l # ls) = l @ sep @ joinWith sep ls"

definition firstSpaceToken :: "string \<Rightarrow> string" where
  \<comment> \<open>\<open>line.split(' ')[0]\<close>\<close>
  "firstSpaceToken line = takeWhile (\<lambda>c. c \<noteq> CHR '' '') line"

definition stripScheme :: "string \<Rightarrow> string" where
  \<comment> \<open>\<open>replace(/^https?:\/\//i, '')\<close>\<close>
  "stripScheme s =
     (if toLowerCase (take 7 s) = ''http://'' then drop 7 s
      else if toLowerCase (take 8 s) = ''https://'' then drop 8 s
      else s)"

definition stripTrailingSlashes :: "string \<Rightarrow> string" where
  \<comment> \<open>\<open>replace(/\/+$/, '')\<close>\<close>
  "stripTrailingSlashes s = rev (dropWhile (\<lambda>c. c = CHR ''/'') (rev s))"

definition sanitizeDomain :: "string \<Rightarrow> string" where
  "sanitizeDomain v = stripTrailingSlashes (stripScheme (trim v))"

definition isBlankOrComment :: "string \<Rightarrow> bool" where
  \<comment> \<open>\<open>!trimmed || trimmed.startsWith('#') || trimmed.startsWith('//')\<close>\<close>
  "isBlankOrComment trimmed = (trimmed = [] \<or> startsWith trimmed ''#'' \<or> startsWith trimmed ''//'')"

definition stripSuffixCI :: "string \<Rightarrow> string \<Rightarrow> string" where
  \<comment> \<open>\<open>replace(/<suffix>$/i, '')\<close> for a literal, lower-case suffix\<close>
  "stripSuffixCI sfx s =
     (if endsWith (toLowerCase s) sfx then take (length s - length sfx) s else s)"

subsection \<open>The file system\<close>

record filesystem =
  files :: "string \<rightharpoonup> string"
  writable :: "string \<Rightarrow> bool"

datatype notice =
    Normalized string string
  | CouldNotRewrite string string
  | CouldNotRead string string
  | Skipping string
  | WroteConfig string

subsection \<open>Static and proxy descriptors\<close>

record parseState =
  ps_domains :: "string list"
  ps_rewrittenLines :: "string list"
  ps_changed :: bool

definition parseLine :: "string \<Rightarrow> parseState \<Rightarrow> parseState" where
  \<comment> \<open>the body of \<open>rawLines.forEach\<close>\<close>
  "parseLine rawLine st =
     (let line = firstSpaceToken rawLine;
          trimmed = trim line;
          changed1 = (ps_changed st \<or> trimmed \<noteq> line)
      in if isBlankOrComment trimmed
         then st\<lparr>ps_rewrittenLines := ps_rewrittenLines st @ [line], ps_changed := changed1\<rparr>
         else (let sanitized = sanitizeDomain trimmed;
                   changed2 = (changed1 \<or> sanitized \<noteq> trimmed)
               in st\<lparr>ps_domains := (if sanitized \<noteq> [] then ps_domains st @ [sanitized]
                                      else ps_domains st),
                      ps_rewrittenLines := ps_rewrittenLines st @ [sanitized],
                      ps_changed := changed2\<rparr>))"

definition parseLines :: "string \<Rightarrow> parseState" where
  "parseLines contents =
     fold parseLine (splitLines contents)
       \<lparr>ps_domains = [], ps_rewrittenLines = [], ps_changed = False\<rparr>"

definition filenameFallback :: "string \<Rightarrow> string list" where
  \<comment> \<open>infer the domain from the file name by stripping known extensions\<close>
  "filenameFallback filename =
     (let base = stripSuffixCI ''.txt'' (stripSuffixCI ''.hts.txt'' filename)
      in if base \<noteq> [] then [base] else [])"

definition parseStaticsAndProxiesDomains ::
  "filesystem \<Rightarrow> string \<Rightarrow> string \<Rightarrow> string \<Rightarrow> string list \<times> filesystem \<times> notice list" where
  "parseStaticsAndProxiesDomains fs filePath filename filetype =
     (case files fs filePath of
        None \<Rightarrow> (filenameFallback filename, fs, [CouldNotRead filetype filename])
      | Some contents \<Rightarrow>
          (let st = parseLines contents;
               updatedContent = joinWith [CHR 0x0A] (ps_rewrittenLines st);
               (fs', notes) =
                 (if ps_changed st \<and> updatedContent \<noteq> contents
                  then (if writable fs filePath
                        then (fs\<lparr>files := (files fs)(filePath \<mapsto> updatedContent)\<rparr>,
                              [Normalized filetype filename])
                        else (fs, [CouldNotRewrite filetype filename]))
                  else (fs, []))
           in if ps_domains st \<noteq> [] then (ps_domains st, fs', notes)
              else (filenameFallback filename, fs', notes)))"

subsection \<open>Loading the descriptors of one kind\<close>

datatype jsError = TypeError string | IOError string

record descriptor =
  d_type :: string
  d_filename :: string
  d_absolutePath :: string
  d_domains :: "string list"
  d_target :: "string option"






subsection \<open>The specification's wording of target resolution and of normal forms\<close>




definition normalForm :: "string \<Rightarrow> bool" where
  \<comment> \<open>a domain that a further pass leaves alone: it is still a domain line, and
      sanitising changes nothing\<close>
  "normalForm d = (\<not> isBlankOrComment (trim d) \<and> sanitizeDomain d = d)"

definition endsWithCR :: "string \<Rightarrow> bool" where
  "endsWithCR l = (l \<noteq> [] \<and> last l = CHR 0x0D)"

text \<open>What one raw line contributes to the rewritten file and to the domain list.\<close>

definition lineOut :: "string \<Rightarrow> string" where
  "lineOut rawLine =
     (let line = firstSpaceToken rawLine; trimmed = trim line
      in if isBlankOrComment trimmed then line else sanitizeDomain trimmed)"

definition lineDomains :: "string \<Rightarrow> string list" where
  "lineDomains rawLine =
     (let trimmed = trim (firstSpaceToken rawLine)
      in if isBlankOrComment trimmed \<or> sanitizeDomain trimmed = [] then []
         else [sanitizeDomain trimmed])"

section \<open>The configuration file\<close>

subsection \<open>Paths\<close>

text \<open>
  \<open>path.dirname\<close>, \<open>path.basename\<close> and \<open>path.isAbsolute\<close> of the host platform, for
  POSIX paths. \<open>path.join\<close> and the installation directory \<open>__dirname\<close> are parameters
  of the model, as is the place of the configuration file.
\<close>

definition dirname :: "string \<Rightarrow> string" where
  "dirname p =
     (if p = [] then ''.''
      else (let hasRoot = (hd p = CHR ''/'');
                r = dropWhile (\<lambda>c. c \<noteq> CHR ''/'') (dropWhile (\<lambda>c. c = CHR ''/'') (rev (tl p)))
            in if r = [] then (if hasRoot then ''/'' else ''.'')
               else if hasRoot \<and> length r = 1 then ''//''
               else take (length r) p))"

definition basename :: "string \<Rightarrow> string" where
  "basename p = rev (takeWhile (\<lambda>c. c \<noteq> CHR ''/'') (dropWhile (\<lambda>c. c = CHR ''/'') (rev p)))"

definition isAbsolute :: "string \<Rightarrow> bool" where
  "isAbsolute p = (p \<noteq> [] \<and> hd p = CHR ''/'')"

record hostEnv =
  CONFIG_PATH :: string
  moduleDir :: string  \<comment> \<open>\<open>__dirname\<close>\<close>
  pathJoin :: "string \<Rightarrow> string \<Rightarrow> string"

subsection \<open>Writing\<close>

definition hasCertificateForDomain :: "string \<Rightarrow> certEntry list \<Rightarrow> bool" where
  "hasCertificateForDomain domain certEntries =
     list_ex (\<lambda>e. list_ex (\<lambda>pattern. domainMatchesPattern domain pattern) (ce_domains e))
             certEntries"

definition domainLine :: "certEntry list \<Rightarrow> string \<Rightarrow> string" where
  "domainLine certEntries domain =
     (let certStatus = (if hasCertificateForDomain domain certEntries then ''present''
                        else ''missing'')
      in ''    - '' @ domain @ '' (cert: '' @ certStatus @ '')'')"

definition pushEntry :: "hostEnv \<Rightarrow> certEntry list \<Rightarrow> descriptor \<Rightarrow> string \<Rightarrow> string list" where
  \<comment> \<open>the lines one descriptor adds; \<open>ty\<close> is the parameter \<open>type\<close>\<close>
  "pushEntry env certEntries d ty =
     (let ident = (if d_absolutePath d \<noteq> [] then d_absolutePath d
                   else pathJoin env (moduleDir env) (d_filename d))
      in [ident, ''  type: '' @ ty, ''  dir: '' @ dirname ident]
         @ (case d_target d of
              Some target \<Rightarrow> if ty = ''proxy'' \<and> target \<noteq> [] then [''  target: '' @ target]
                              else []
            | None \<Rightarrow> [])
         @ [''  domains:'']
         @ (if d_domains d = [] then [''    - (none) (cert: n/a)'']
            else map (domainLine certEntries) (d_domains d))
         @ [''''])"

definition configLines ::
  "hostEnv \<Rightarrow> descriptor list \<Rightarrow> descriptor list \<Rightarrow> descriptor list \<Rightarrow> certEntry list
     \<Rightarrow> string list" where
  "configLines env serverDescriptors staticDescriptors proxyDescriptors certEntries =
     concat (map (\<lambda>d. pushEntry env certEntries d ''proxy'') proxyDescriptors)
     @ concat (map (\<lambda>d. pushEntry env certEntries d ''static'') staticDescriptors)
     @ concat (map (\<lambda>d. pushEntry env certEntries d ''express'') serverDescriptors)"

definition writeConfigFile ::
  "hostEnv \<Rightarrow> descriptor list \<Rightarrow> descriptor list \<Rightarrow> descriptor list \<Rightarrow> certEntry list
     \<Rightarrow> filesystem \<Rightarrow> jsError + filesystem \<times> notice list" where
  "writeConfigFile env serverDescriptors staticDescriptors proxyDescriptors certEntries fs =
     (let lines = configLines env serverDescriptors staticDescriptors proxyDescriptors certEntries
      in if writable fs (CONFIG_PATH env)
         then Inr (fs\<lparr>files := (files fs)(CONFIG_PATH env \<mapsto> joinWith [CHR 0x0A] lines)\<rparr>,
                   [WroteConfig (CONFIG_PATH env)])
         else Inl (IOError (CONFIG_PATH env)))"

subsection \<open>Reading\<close>

record configEntry =
  e_id :: string
  e_type :: "string option"
  e_target :: "string option"
  e_dir :: "string option"
  e_domains :: "string list"

record configItem =
  ci_absolutePath :: string
  ci_displayName :: string
  ci_domains :: "string list"
  ci_target :: "string option"

record parsedConfig =
  pc_servers :: "configItem list"
  pc_statics :: "configItem list"
  pc_proxies :: "configItem list"

definition flush :: "configEntry list \<times> configEntry option \<Rightarrow> configEntry list \<times> configEntry option" where
  "flush st =
     (case snd st of
        None \<Rightarrow> (fst st, None)
      | Some cur \<Rightarrow>
          if (case e_type cur of None \<Rightarrow> False | Some t \<Rightarrow> t \<noteq> []) \<and> e_id cur \<noteq> []
          then (fst st @ [cur], None)
          else (fst st, None))"

definition afterColon :: "string \<Rightarrow> string" where
  \<comment> \<open>\<open>trimmed.split(':').slice(1).join(':').trim()\<close>\<close>
  "afterColon trimmed = trim (joinWith '':'' (drop 1 (splitOn CHR '':'' trimmed)))"

definition isLineTerminator :: "char \<Rightarrow> bool" where
  "isLineTerminator c = (c = CHR 0x0A \<or> c = CHR 0x0D)"

definition certMatch :: "string \<Rightarrow> bool" where
  \<comment> \<open>\<open>/\(cert:.*\)$/i\<close> matches here: \<open>(cert:\<close>, then anything but line terminators,
      then \<open>)\<close> at the very end\<close>
  "certMatch s =
     (case s of
        [] \<Rightarrow> False
      | c # r \<Rightarrow>
          c = CHR ''('' \<and> toLowerCase (take 5 r) = ''cert:''
          \<and> (let rest = drop 5 r
              in rest \<noteq> [] \<and> last rest = CHR '')''
                 \<and> list_all (\<lambda>x. \<not> isLineTerminator x) (butlast rest)))"

fun stripCert :: "string \<Rightarrow> string" where
  \<comment> \<open>\<open>replace(/\(cert:.*\)$/i, '')\<close>: cut at the leftmost match\<close>
  "stripCert [] = []"
| "stripCert (c # cs) = (if certMatch (c # cs) then [] else c # stripCert cs)"

definition configLine ::
  "string \<Rightarrow> configEntry list \<times> configEntry option
     \<Rightarrow> jsError + configEntry list \<times> configEntry option" where
  \<comment> \<open>the body of \<open>lines.forEach\<close>; writing a field of \<open>curr\<close> (here \<open>cur\<close>) while it is \<open>null\<close> throws\<close>
  "configLine line st =
     (if trim line = [] then Inr (flush st)
      else if \<not> startsWith line '' ''
      then Inr (fst (flush st),
                Some \<lparr>e_id = trim line, e_type = None, e_target = None, e_dir = None,
                      e_domains = []\<rparr>)
      else (let trimmed = trim line
            in if startsWith trimmed ''type:''
               then (case snd st of
                       None \<Rightarrow> Inl (TypeError ''Cannot set properties of null (setting type)'')
                     | Some cur \<Rightarrow> Inr (fst st, Some (cur\<lparr>e_type := Some (afterColon trimmed)\<rparr>)))
               else if startsWith trimmed ''target:''
               then (case snd st of
                       None \<Rightarrow> Inl (TypeError ''Cannot set properties of null (setting target)'')
                     | Some cur \<Rightarrow> Inr (fst st, Some (cur\<lparr>e_target := Some (afterColon trimmed)\<rparr>)))
               else if startsWith trimmed ''dir:''
               then (case snd st of
                       None \<Rightarrow> Inl (TypeError ''Cannot set properties of null (setting dir)'')
                     | Some cur \<Rightarrow> Inr (fst st, Some (cur\<lparr>e_dir := Some (afterColon trimmed)\<rparr>)))
               else if startsWith trimmed ''-''
               then (let domainPart = trim (drop 1 trimmed);
                         withoutCert = trim (stripCert domainPart)
                     in if withoutCert \<noteq> [] \<and> withoutCert \<noteq> ''(none)''
                        then (case snd st of
                                None \<Rightarrow> Inl (TypeError ''Cannot read properties of null (reading domains)'')
                              | Some cur \<Rightarrow>
                                  Inr (fst st,
                                       Some (cur\<lparr>e_domains := e_domains cur @ [withoutCert]\<rparr>)))
                        else Inr st)
               else Inr st))"

fun configLoop ::
  "string list \<Rightarrow> configEntry list \<times> configEntry option
     \<Rightarrow> jsError + configEntry list \<times> configEntry option" where
  "configLoop [] st = Inr st"
| "configLoop (line # ls) st =
     (case configLine line st of Inl e \<Rightarrow> Inl e | Inr st' \<Rightarrow> configLoop ls st')"

definition mapEntries :: "hostEnv \<Rightarrow> string \<Rightarrow> configEntry list \<Rightarrow> configItem list" where
  "mapEntries env ty entries =
     map (\<lambda>e. let absolutePath =
                    (if isAbsolute (e_id e) then e_id e
                     else (case e_dir e of
                             Some dir \<Rightarrow> if dir \<noteq> [] then pathJoin env dir (e_id e)
                                         else pathJoin env (moduleDir env) (e_id e)
                           | None \<Rightarrow> pathJoin env (moduleDir env) (e_id e)))
               in \<lparr>ci_absolutePath = absolutePath, ci_displayName = basename absolutePath,
                   ci_domains = e_domains e, ci_target = e_target e\<rparr>)
         (filter (\<lambda>e. e_type e = Some ty \<and> e_id e \<noteq> []) entries)"

definition parseConfigFile :: "hostEnv \<Rightarrow> filesystem \<Rightarrow> jsError + parsedConfig" where
  "parseConfigFile env fs =
     (case files fs (CONFIG_PATH env) of
        None \<Rightarrow> Inr \<lparr>pc_servers = [], pc_statics = [], pc_proxies = []\<rparr>
      | Some content \<Rightarrow>
          (case configLoop (splitLines content) ([], None) of
             Inl e \<Rightarrow> Inl e
           | Inr st \<Rightarrow>
               (let entries = fst (flush st)
                in Inr \<lparr>pc_servers = mapEntries env ''express'' entries,
                        pc_statics = mapEntries env ''static'' entries,
                        pc_proxies = mapEntries env ''proxy'' entries\<rparr>)))"

subsection \<open>Well-formed descriptors, and what reading them back gives\<close>

definition tidy :: "string \<Rightarrow> bool" where
  \<comment> \<open>non-empty, no white space at either end, no line break inside\<close>
  "tidy s = (s \<noteq> [] \<and> trim s = s \<and> list_all (\<lambda>c. \<not> isLineTerminator c) s)"

definition wellFormed :: "descriptor \<Rightarrow> bool" where
  "wellFormed d =
     (tidy (d_absolutePath d) \<and> hd (d_absolutePath d) = CHR ''/''
      \<and> list_all (\<lambda>x. tidy x \<and> CHR ''('' \<notin> set x) (d_domains d)
      \<and> (case d_target d of None \<Rightarrow> True | Some t \<Rightarrow> tidy t))"

definition itemOf :: "string \<Rightarrow> descriptor \<Rightarrow> configItem" where
  \<comment> \<open>the descriptor as the reader presents it: same path, domains and, for a proxy, target\<close>
  "itemOf ty d =
     \<lparr>ci_absolutePath = d_absolutePath d, ci_displayName = basename (d_absolutePath d),
      ci_domains = d_domains d,
      ci_target = (if ty = ''proxy'' then d_target d else None)\<rparr>"

definition descriptorOf :: "string \<Rightarrow> configItem \<Rightarrow> descriptor" where
  \<comment> \<open>an item read from the file, as a descriptor again (as \<open>main\<close> builds them)\<close>
  "descriptorOf ty item =
     \<lparr>d_type = ty, d_filename = ci_displayName item, d_absolutePath = ci_absolutePath item,
      d_domains = ci_domains item, d_target = ci_target item\<rparr>"

definition entryOf :: "string \<Rightarrow> descriptor \<Rightarrow> configEntry" where
  \<comment> \<open>the entry the reader's loop builds from the lines written for a descriptor\<close>
  "entryOf ty d =
     \<lparr>e_id = d_absolutePath d, e_type = Some ty,
      e_target = (if ty = ''proxy'' then d_target d else None),
      e_dir = Some (afterColon (trim (''  dir: '' @ dirname (d_absolutePath d)))),
      e_domains = d_domains d\<rparr>"

definition plainChars :: "string \<Rightarrow> bool" where
  "plainChars l = list_all (\<lambda>c. \<not> isLineTerminator c) l"


section \<open>Certificate patterns: proofs\<close>

lemma startsWith_iff: "startsWith s p \<longleftrightarrow> (\<exists>rest. s = p @ rest)"
  unfolding startsWith_def
  by (metis append_eq_conv_conj append_take_drop_id)

lemma endsWith_iff: "endsWith s p \<longleftrightarrow> (\<exists>pre. s = pre @ p)"
proof
  assume "endsWith s p"
  then have "s = take (length s - length p) s @ p"
    unfolding endsWith_def by (metis append_take_drop_id)
  then show "\<exists>pre. s = pre @ p" ..
next
  assume "\<exists>pre. s = pre @ p"
  then show "endsWith s p" unfolding endsWith_def by auto
qed

lemma endsWith_longer_iff:
  "endsWith s p \<and> length s > length p \<longleftrightarrow> (\<exists>pre. pre \<noteq> [] \<and> s = pre @ p)"
  unfolding endsWith_iff by auto

text \<open>
  \<^bold>\<open>C6.\<close> \<open>domainMatchesPattern domain pattern\<close> holds exactly when both arguments are
  non-empty and, lower-cased, either the domain equals the pattern or the pattern is
  \<open>*.\<close> followed by some rest and the domain is a non-empty label followed by \<open>.\<close> and
  that rest (so it ends with the suffix and is strictly longer: the bare parent domain
  never matches). The three sample evaluations of the specification hold.
\<close>

theorem domainMatchesPattern_iff:
  "(domainMatchesPattern domain pattern \<longleftrightarrow>
      toLowerCase domain \<noteq> [] \<and> toLowerCase pattern \<noteq> [] \<and>
      (toLowerCase domain = toLowerCase pattern \<or>
       (\<exists>rest label. toLowerCase pattern = ''*.'' @ rest \<and> label \<noteq> [] \<and>
                      toLowerCase domain = label @ ''.'' @ rest)))
   \<and> domainMatchesPattern ''a.example.com'' ''*.example.com''
   \<and> \<not> domainMatchesPattern ''example.com'' ''*.example.com''
   \<and> domainMatchesPattern ''example.com'' ''example.com''"
proof (intro conjI)
  define d where "d = toLowerCase domain"
  define p where "p = toLowerCase pattern"
  have "domainMatchesPattern domain pattern \<longleftrightarrow>
        d \<noteq> [] \<and> p \<noteq> [] \<and> (d = p \<or> (\<exists>rest label. p = ''*.'' @ rest \<and> label \<noteq> [] \<and> d = label @ ''.'' @ rest))"
  proof (cases "startsWith p ''*.''")
    case True
    then obtain rest where rest: "p = ''*.'' @ rest" unfolding startsWith_iff by blast
    then have dp: "drop 1 p = ''.'' @ rest" by simp
    have "domainMatchesPattern domain pattern \<longleftrightarrow>
            d \<noteq> [] \<and> (\<exists>label. label \<noteq> [] \<and> d = label @ ''.'' @ rest)"
      using True rest endsWith_longer_iff [of d "''.'' @ rest"]
      unfolding domainMatchesPattern_def d_def [symmetric] p_def [symmetric] Let_def dp
      by auto
    moreover have "d = p \<Longrightarrow> \<exists>label. label \<noteq> [] \<and> d = label @ ''.'' @ rest"
      using rest by (intro exI [of _ "''*''"]) simp
    ultimately show ?thesis using rest by auto
  next
    case False
    then have "\<not> (\<exists>rest. p = ''*.'' @ rest)" unfolding startsWith_iff by blast
    then show ?thesis
      using False
      unfolding domainMatchesPattern_def d_def [symmetric] p_def [symmetric] Let_def
      by auto
  qed
  then show "domainMatchesPattern domain pattern \<longleftrightarrow>
      toLowerCase domain \<noteq> [] \<and> toLowerCase pattern \<noteq> [] \<and>
      (toLowerCase domain = toLowerCase pattern \<or>
       (\<exists>rest label. toLowerCase pattern = ''*.'' @ rest \<and> label \<noteq> [] \<and>
                      toLowerCase domain = label @ ''.'' @ rest))"
    unfolding d_def p_def .
  show "domainMatchesPattern ''a.example.com'' ''*.example.com''" by code_simp
  show "\<not> domainMatchesPattern ''example.com'' ''*.example.com''" by code_simp
  show "domainMatchesPattern ''example.com'' ''example.com''" by code_simp
qed

theorem domainMatchesPattern_iff_witness:
  "domainMatchesPattern ''WWW.example.com'' ''*.Example.com''"
proof -
  have "toLowerCase ''WWW.example.com'' = ''www'' @ ''.'' @ ''example.com''" by code_simp
  moreover have "toLowerCase ''*.Example.com'' = ''*.'' @ ''example.com''" by code_simp
  ultimately show ?thesis
    using domainMatchesPattern_iff [of "''WWW.example.com''" "''*.Example.com''"]
    by (metis list.distinct(1) append_is_Nil_conv)
qed

section \<open>The routing table and the dispatcher: proofs\<close>

subsection \<open>Routing table\<close>


lemma effectiveKindOf_override: "k \<noteq> [] \<Longrightarrow> effectiveKindOf k x = k"
  by (simp add: effectiveKindOf_def)

lemma attachDomain_entries:
  "entriesOf (attachDomain a f k dmn tbl) h =
     entriesOf tbl h @ (if toLowerCase (trim dmn) = h \<and> h \<noteq> []
                        then [\<lparr>app = a, source = f, kind = k\<rparr>] else [])"
  by (auto simp: attachDomain_def entriesOf_def Let_def)

lemma attachDomain_nonempty:
  "\<forall>h. tbl h \<noteq> Some [] \<Longrightarrow> attachDomain a f k dmn tbl h \<noteq> Some []"
  by (auto simp: attachDomain_def Let_def)

lemma fold_attachDomain_entries:
  "entriesOf (fold (attachDomain a f k) dmns tbl) h =
     entriesOf tbl h @ map (\<lambda>_. \<lparr>app = a, source = f, kind = k\<rparr>)
                         (filter (\<lambda>dmn. toLowerCase (trim dmn) = h \<and> h \<noteq> []) dmns)"
  by (induction dmns arbitrary: tbl) (simp_all add: attachDomain_entries)

lemma fold_attachDomain_nonempty:
  "\<forall>h. tbl h \<noteq> Some [] \<Longrightarrow> \<forall>h. fold (attachDomain a f k) dmns tbl h \<noteq> Some []"
proof (induction dmns arbitrary: tbl)
  case Nil then show ?case by simp
next
  case (Cons d dmns)
  have "\<forall>h. attachDomain a f k d tbl h \<noteq> Some []"
    using Cons.prems attachDomain_nonempty by blast
  then show ?case using Cons.IH by simp
qed

lemma attachDescriptors_entries:
  "k \<noteq> [] \<Longrightarrow> entriesOf (attachDescriptors ds k tbl) h = entriesOf tbl h @ declaredBy h k ds"
proof (induction ds arbitrary: tbl)
  case Nil then show ?case by (simp add: attachDescriptors_def declaredBy_def)
next
  case (Cons d ds)
  have step: "entriesOf (attachDescriptor k d tbl) h = entriesOf tbl h @ declaredBy h k [d]"
    using Cons.prems
    by (simp add: attachDescriptor_def fold_attachDomain_entries declaredBy_def
        effectiveKindOf_override)
  have "entriesOf (attachDescriptors (d # ds) k tbl) h
        = entriesOf (attachDescriptors ds k (attachDescriptor k d tbl)) h"
    by (simp add: attachDescriptors_def)
  also have "\<dots> = entriesOf (attachDescriptor k d tbl) h @ declaredBy h k ds"
    using Cons.IH [OF Cons.prems] .
  also have "\<dots> = entriesOf tbl h @ declaredBy h k (d # ds)"
    by (simp add: step declaredBy_def)
  finally show ?case .
qed

lemma attachDescriptors_nonempty:
  "\<forall>h. tbl h \<noteq> Some [] \<Longrightarrow> \<forall>h. attachDescriptors ds k tbl h \<noteq> Some []"
proof (induction ds arbitrary: tbl)
  case Nil then show ?case by (simp add: attachDescriptors_def)
next
  case (Cons d ds)
  have "\<forall>h. attachDescriptor k d tbl h \<noteq> Some []"
    unfolding attachDescriptor_def using Cons.prems by (rule fold_attachDomain_nonempty)
  from Cons.IH [OF this] show ?case by (simp add: attachDescriptors_def)
qed

lemma entriesOf_empty: "entriesOf Map.empty h = []"
  by (simp add: entriesOf_def)

lemma buildDomainAppMap_entries:
  "entriesOf (buildDomainAppMap servers statics proxies) h =
     declaredBy h ''proxy'' proxies @ declaredBy h ''static'' statics @ declaredBy h ''express'' servers"
  by (simp add: buildDomainAppMap_def attachDescriptors_entries entriesOf_empty)

lemma buildDomainAppMap_nonempty:
  "buildDomainAppMap servers statics proxies h \<noteq> Some []"
proof -
  have 0: "\<forall>h. (Map.empty :: string \<rightharpoonup> mapping list) h \<noteq> Some []" by simp
  have 1: "\<forall>h. attachDescriptors proxies ''proxy'' Map.empty h \<noteq> Some []"
    by (rule attachDescriptors_nonempty [OF 0])
  have 2: "\<forall>h. attachDescriptors statics ''static''
              (attachDescriptors proxies ''proxy'' Map.empty) h \<noteq> Some []"
    by (rule attachDescriptors_nonempty [OF 1])
  have 3: "\<forall>h. attachDescriptors servers ''express'' (attachDescriptors statics ''static''
              (attachDescriptors proxies ''proxy'' Map.empty)) h \<noteq> Some []"
    by (rule attachDescriptors_nonempty [OF 2])
  show ?thesis unfolding buildDomainAppMap_def using 3 by (rule spec)
qed

lemma buildDomainAppMap_lookup:
  "buildDomainAppMap servers statics proxies h =
     (let l = declaredBy h ''proxy'' proxies @ declaredBy h ''static'' statics
              @ declaredBy h ''express'' servers
      in if l = [] then None else Some l)"
proof -
  let ?tbl = "buildDomainAppMap servers statics proxies"
  let ?l = "declaredBy h ''proxy'' proxies @ declaredBy h ''static'' statics
              @ declaredBy h ''express'' servers"
  have e: "entriesOf ?tbl h = ?l"
    by (rule buildDomainAppMap_entries)
  have n: "?tbl h \<noteq> Some []" by (rule buildDomainAppMap_nonempty)
  show ?thesis
  proof (cases "?tbl h")
    case None
    then have "?l = []" using e by (simp add: entriesOf_def)
    then show ?thesis using None unfolding Let_def by simp
  next
    case (Some l)
    then have "?l = l" using e by (simp add: entriesOf_def)
    moreover have "l \<noteq> []" using Some n by simp
    ultimately show ?thesis using Some unfolding Let_def by simp
  qed
qed

subsection \<open>The walk\<close>

lemma invocations_append [simp]: "invocations (xs @ ys) = invocations xs @ invocations ys"
  by (induction xs rule: invocations.induct) simp_all

lemma errorsLogged_append [simp]: "errorsLogged (xs @ ys) = errorsLogged xs @ errorsLogged ys"
  by (induction xs rule: errorsLogged.induct) simp_all

lemma runNextApp_sent: "headersSent res \<Longrightarrow> runNextApp h req ms i (res, log) = (res, log)"
  by (simp add: runNextApp.simps)

lemma runNextApp_exhausted:
  "\<not> headersSent res \<Longrightarrow> length ms \<le> i \<Longrightarrow>
   runNextApp h req ms i (res, log) = (plainText 404 ''Not found'' res, log)"
  by (simp add: runNextApp.simps)

lemma runNextApp_step:
  "\<not> headersSent res \<Longrightarrow> i < length ms \<Longrightarrow>
   runNextApp h req ms i (res, log) =
     (case app (ms ! i) req res of
        (res', CallsNext) \<Rightarrow>
          if \<not> headersSent res'
          then runNextApp h req ms (Suc i) (res', log @ [Invoked (kind (ms ! i)) (source (ms ! i)) res])
          else (res', log @ [Invoked (kind (ms ! i)) (source (ms ! i)) res])
      | (res', CallsNextErr err) \<Rightarrow>
          if err \<noteq> []
          then if \<not> headersSent res'
               then (plainText 500 ''Internal server error.'' res',
                     log @ [Invoked (kind (ms ! i)) (source (ms ! i)) res, ErrorLogged h (source (ms ! i)) err])
               else (res', log @ [Invoked (kind (ms ! i)) (source (ms ! i)) res, ErrorLogged h (source (ms ! i)) err])
          else if \<not> headersSent res'
          then runNextApp h req ms (Suc i) (res', log @ [Invoked (kind (ms ! i)) (source (ms ! i)) res])
          else (res', log @ [Invoked (kind (ms ! i)) (source (ms ! i)) res])
      | (res', Throws error) \<Rightarrow>
          if \<not> headersSent res'
          then runNextApp h req ms (Suc i)
                 (res', log @ [Invoked (kind (ms ! i)) (source (ms ! i)) res, ErrorLogged h (source (ms ! i)) error])
          else (res', log @ [Invoked (kind (ms ! i)) (source (ms ! i)) res, ErrorLogged h (source (ms ! i)) error])
      | (res', Returns) \<Rightarrow> (res', log @ [Invoked (kind (ms ! i)) (source (ms ! i)) res]))"
  by (simp add: runNextApp.simps [of h req ms i] Let_def split: prod.splits signal.splits)

lemma runNextApp_extends:
  "\<exists>evs. snd (runNextApp h req ms i (res, log)) = log @ evs"
proof (induction "length ms - i" arbitrary: i res log)
  case 0
  then show ?case by (cases "headersSent res") (simp_all add: runNextApp_sent runNextApp_exhausted)
next
  case (Suc n)
  show ?case
  proof (cases "headersSent res")
    case True
    then show ?thesis by (simp add: runNextApp_sent)
  next
    case False
    have i: "i < length ms" using Suc.hyps(2) by simp
    have n: "n = length ms - Suc i" using Suc.hyps(2) by simp
    obtain res' sg where a: "app (ms ! i) req res = (res', sg)" by (cases "app (ms ! i) req res")
    have ih: "\<exists>evs. snd (runNextApp h req ms (Suc i) (res', l)) = l @ evs" for l
      using Suc.hyps(1) [OF n] .
    show ?thesis
    proof (cases sg)
      case CallsNext
      obtain evs where "snd (runNextApp h req ms (Suc i) (res', log @ [Invoked (kind (ms ! i)) (source (ms ! i)) res]))
          = (log @ [Invoked (kind (ms ! i)) (source (ms ! i)) res]) @ evs"
        using ih by blast
      then show ?thesis using False i a CallsNext by (simp add: runNextApp_step)
    next
      case (CallsNextErr e)
      obtain evs where "snd (runNextApp h req ms (Suc i) (res', log @ [Invoked (kind (ms ! i)) (source (ms ! i)) res]))
          = (log @ [Invoked (kind (ms ! i)) (source (ms ! i)) res]) @ evs"
        using ih by blast
      then show ?thesis using False i a CallsNextErr by (simp add: runNextApp_step)
    next
      case (Throws e)
      obtain evs where "snd (runNextApp h req ms (Suc i) (res', log @ [Invoked (kind (ms ! i)) (source (ms ! i)) res, ErrorLogged h (source (ms ! i)) e]))
          = (log @ [Invoked (kind (ms ! i)) (source (ms ! i)) res, ErrorLogged h (source (ms ! i)) e]) @ evs"
        using ih by blast
      then show ?thesis using False i a Throws by (simp add: runNextApp_step)
    next
      case Returns
      then show ?thesis using False i a by (simp add: runNextApp_step)
    qed
  qed
qed

lemma runNextApp_first:
  assumes "\<not> headersSent res" "i < length ms"
  shows "\<exists>evs. snd (runNextApp h req ms i (res, log))
           = log @ Invoked (kind (ms ! i)) (source (ms ! i)) res # evs"
proof -
  obtain res' sg where a: "app (ms ! i) req res = (res', sg)" by (cases "app (ms ! i) req res")
  have ext: "\<exists>evs. snd (runNextApp h req ms (Suc i) (res', l)) = l @ evs" for l
    by (rule runNextApp_extends)
  show ?thesis
  proof (cases sg)
    case CallsNext
    obtain evs where "snd (runNextApp h req ms (Suc i) (res', log @ [Invoked (kind (ms ! i)) (source (ms ! i)) res]))
        = (log @ [Invoked (kind (ms ! i)) (source (ms ! i)) res]) @ evs"
      using ext by blast
    then show ?thesis using assms a CallsNext by (simp add: runNextApp_step)
  next
    case (CallsNextErr e)
    obtain evs where "snd (runNextApp h req ms (Suc i) (res', log @ [Invoked (kind (ms ! i)) (source (ms ! i)) res]))
        = (log @ [Invoked (kind (ms ! i)) (source (ms ! i)) res]) @ evs"
      using ext by blast
    then show ?thesis using assms a CallsNextErr by (simp add: runNextApp_step)
  next
    case (Throws e)
    obtain evs where "snd (runNextApp h req ms (Suc i) (res', log @ [Invoked (kind (ms ! i)) (source (ms ! i)) res, ErrorLogged h (source (ms ! i)) e]))
        = (log @ [Invoked (kind (ms ! i)) (source (ms ! i)) res, ErrorLogged h (source (ms ! i)) e]) @ evs"
      using ext by blast
    then show ?thesis using assms a Throws by (simp add: runNextApp_step)
  next
    case Returns
    then show ?thesis using assms a by (simp add: runNextApp_step)
  qed
qed

lemma take_Suc_drop: "i < length ms \<Longrightarrow> take (Suc n) (drop i ms) = ms ! i # take n (drop (Suc i) ms)"
  by (metis Cons_nth_drop_Suc take_Suc_Cons)

lemma fallRun_walk:
  assumes "fallRun h req (take n (drop i ms)) res = Some (res', errs)"
    and "\<not> headersSent res" and "i + n \<le> length ms"
  shows "\<exists>log'. runNextApp h req ms i (res, log) = runNextApp h req ms (i + n) (res', log @ log')
           \<and> invocations log' = map (\<lambda>m. (kind m, source m)) (take n (drop i ms))
           \<and> errorsLogged log' = errs \<and> \<not> headersSent res'"
  using assms
proof (induction n arbitrary: i res log errs)
  case 0
  then show ?case by (intro exI [of _ "[]"]) simp
next
  case (Suc n)
  have i: "i < length ms" using Suc.prems(3) by simp
  have le: "Suc i + n \<le> length ms" using Suc.prems(3) by simp
  note td = take_Suc_drop [OF i, of n]
  obtain r1 sg where a: "app (ms ! i) req res = (r1, sg)" by (cases "app (ms ! i) req res")
  let ?inv = "Invoked (kind (ms ! i)) (source (ms ! i)) res"
  show ?case
  proof (cases sg)
    case CallsNext
    from Suc.prems(1) have ns: "\<not> headersSent r1"
      and f: "fallRun h req (take n (drop (Suc i) ms)) r1 = Some (res', errs)"
      unfolding td using a CallsNext by (auto split: if_splits)
    from Suc.IH [OF f ns le, of "log @ [?inv]"]
    obtain log' where
      1: "runNextApp h req ms (Suc i) (r1, log @ [?inv])
            = runNextApp h req ms (Suc i + n) (res', (log @ [?inv]) @ log')"
      and 2: "invocations log' = map (\<lambda>m. (kind m, source m)) (take n (drop (Suc i) ms))"
      and 3: "errorsLogged log' = errs" and 4: "\<not> headersSent res'"
      by blast
    have "runNextApp h req ms i (res, log) = runNextApp h req ms (Suc i) (r1, log @ [?inv])"
      using Suc.prems(2) i a CallsNext ns by (simp add: runNextApp_step)
    then have "runNextApp h req ms i (res, log)
         = runNextApp h req ms (i + Suc n) (res', log @ (?inv # log'))"
      using 1 by simp
    moreover have "invocations (?inv # log') = map (\<lambda>m. (kind m, source m)) (take (Suc n) (drop i ms))"
      unfolding td using 2 by simp
    moreover have "errorsLogged (?inv # log') = errs" using 3 by simp
    ultimately show ?thesis using 4 by blast
  next
    case (Throws e)
    let ?err = "ErrorLogged h (source (ms ! i)) e"
    from Suc.prems(1) have ns: "\<not> headersSent r1"
      unfolding td using a Throws by (auto split: if_splits)
    from Suc.prems(1) obtain errs0 where
      f: "fallRun h req (take n (drop (Suc i) ms)) r1 = Some (res', errs0)"
      and errs: "errs = (h, source (ms ! i), e) # errs0"
      unfolding td using a Throws ns by (auto split: if_splits)
    from Suc.IH [OF f ns le, of "log @ [?inv, ?err]"]
    obtain log' where
      1: "runNextApp h req ms (Suc i) (r1, log @ [?inv, ?err])
            = runNextApp h req ms (Suc i + n) (res', (log @ [?inv, ?err]) @ log')"
      and 2: "invocations log' = map (\<lambda>m. (kind m, source m)) (take n (drop (Suc i) ms))"
      and 3: "errorsLogged log' = errs0" and 4: "\<not> headersSent res'"
      by blast
    have "runNextApp h req ms i (res, log) = runNextApp h req ms (Suc i) (r1, log @ [?inv, ?err])"
      using Suc.prems(2) i a Throws ns by (simp add: runNextApp_step)
    then have "runNextApp h req ms i (res, log)
         = runNextApp h req ms (i + Suc n) (res', log @ (?inv # ?err # log'))"
      using 1 by simp
    moreover have "invocations (?inv # ?err # log') = map (\<lambda>m. (kind m, source m)) (take (Suc n) (drop i ms))"
      unfolding td using 2 by simp
    moreover have "errorsLogged (?inv # ?err # log') = errs" using 3 errs by simp
    ultimately show ?thesis using 4 by blast
  next
    case (CallsNextErr e)
    from Suc.prems(1) have e: "e = []" and ns: "\<not> headersSent r1"
      and f: "fallRun h req (take n (drop (Suc i) ms)) r1 = Some (res', errs)"
      unfolding td using a CallsNextErr by (auto split: if_splits)
    from Suc.IH [OF f ns le, of "log @ [?inv]"]
    obtain log' where
      1: "runNextApp h req ms (Suc i) (r1, log @ [?inv])
            = runNextApp h req ms (Suc i + n) (res', (log @ [?inv]) @ log')"
      and 2: "invocations log' = map (\<lambda>m. (kind m, source m)) (take n (drop (Suc i) ms))"
      and 3: "errorsLogged log' = errs" and 4: "\<not> headersSent res'"
      by blast
    have "runNextApp h req ms i (res, log) = runNextApp h req ms (Suc i) (r1, log @ [?inv])"
      using Suc.prems(2) i a CallsNextErr e ns by (simp add: runNextApp_step)
    then have "runNextApp h req ms i (res, log)
         = runNextApp h req ms (i + Suc n) (res', log @ (?inv # log'))"
      using 1 by simp
    moreover have "invocations (?inv # log') = map (\<lambda>m. (kind m, source m)) (take (Suc n) (drop i ms))"
      unfolding td using 2 by simp
    moreover have "errorsLogged (?inv # log') = errs" using 3 by simp
    ultimately show ?thesis using 4 by blast
  next
    case Returns
    with Suc.prems(1) a show ?thesis unfolding td by simp
  qed
qed

lemma deferRun_fallRun:
  "deferRun req l res = Some res' \<Longrightarrow> fallRun h req l res = Some (res', [])"
proof (induction l arbitrary: res)
  case Nil then show ?case by simp
next
  case (Cons m l)
  obtain r1 sg where a: "app m req res = (r1, sg)" by (cases "app m req res")
  from Cons.prems a have sg: "sg = CallsNext" by (cases sg) simp_all
  from Cons.prems a sg have ns: "\<not> headersSent r1" and d: "deferRun req l r1 = Some res'"
    by (auto split: if_splits)
  from Cons.IH [OF d] show ?case using a sg ns by simp
qed

lemma fallRun_all:
  assumes "fallRun h req ms res = Some (res', errs)" and "\<not> headersSent res"
  shows "runNextApp h req ms 0 (res, []) = (plainText 404 ''Not found'' res', snd (runNextApp h req ms 0 (res, [])))
         \<and> invocations (snd (runNextApp h req ms 0 (res, []))) = map (\<lambda>m. (kind m, source m)) ms
         \<and> errorsLogged (snd (runNextApp h req ms 0 (res, []))) = errs"
proof -
  from fallRun_walk [of h req "length ms" 0 ms res res' errs "[]"] assms
  obtain log' where 1: "runNextApp h req ms 0 (res, []) = runNextApp h req ms (length ms) (res', log')"
    and 2: "invocations log' = map (\<lambda>m. (kind m, source m)) ms"
    and 3: "errorsLogged log' = errs" and 4: "\<not> headersSent res'"
    by auto
  have "runNextApp h req ms (length ms) (res', log') = (plainText 404 ''Not found'' res', log')"
    using 4 by (simp add: runNextApp_exhausted)
  with 1 2 3 show ?thesis by simp
qed

lemma securityHeaders_headersSent [simp]:
  "headersSent (securityHeaders certs h res) = headersSent res"
  by (simp add: securityHeaders_def setHeader_def)

lemma plainText_fields [simp]:
  "statusCode (plainText c msg res) = c"
  "body (plainText c msg res) = Some msg"
  "headersSent (plainText c msg res)"
  "getHeader ''Content-Type'' (plainText c msg res) = Some ''text/plain; charset=utf-8''"
  by (simp_all add: plainText_def endResponse_def setHeader_def getHeader_def)










lemma firstHandedResponse_Invoked [simp]:
  "firstHandedResponse ([] @ Invoked k s r # evs) = Some r"
  by simp

lemma httpsRequestHandler_no_route:
  "domainToApp (hostnameOf req) = None \<or> domainToApp (hostnameOf req) = Some [] \<Longrightarrow>
   httpsRequestHandler domainToApp certs req res
     = (plainText 502 ''No application configured for this domain.''
          (securityHeaders certs (hostnameOf req) res), [])"
  by (auto simp: httpsRequestHandler_def Let_def)

lemma httpsRequestHandler_route:
  "domainToApp (hostnameOf req) = Some ms \<Longrightarrow> ms \<noteq> [] \<Longrightarrow>
   httpsRequestHandler domainToApp certs req res
     = runNextApp (hostnameOf req) req ms 0 (securityHeaders certs (hostnameOf req) res, [])"
  by (simp add: httpsRequestHandler_def Let_def)

text \<open>
  \<^bold>\<open>C2.\<close> A request whose host name (lower-cased, port stripped) has no entry in the
  routing table is answered with status 502 and a plain-text body, and no handler is
  invoked.
\<close>

theorem no_route_502:
  "domainToApp (hostnameOf req) = None \<Longrightarrow> \<not> headersSent res \<Longrightarrow>
   httpsRequestHandler domainToApp certDomainSet req res = (final, log) \<Longrightarrow>
   statusCode final = 502
   \<and> getHeader ''Content-Type'' final = Some ''text/plain; charset=utf-8''
   \<and> body final = Some ''No application configured for this domain.''
   \<and> headersSent final
   \<and> invocations log = []"
  by (auto simp: httpsRequestHandler_no_route)

text \<open>
  \<^bold>\<open>C3.\<close> When the host name has a routing entry and every handler of its list defers
  until the list is exhausted, the dispatcher answers 404 with the body \<open>Not found\<close>,
  having invoked every handler in order. The witness is a host name whose only mapping is
  a static handler that defers.
\<close>

theorem all_defer_404:
  assumes "buildDomainAppMap servers statics proxies (hostnameOf req) = Some ms"
    and "\<not> headersSent res"
    and "deferRun req ms (securityHeaders certDomainSet (hostnameOf req) res) = Some res'"
    and "httpsRequestHandler (buildDomainAppMap servers statics proxies) certDomainSet req res
           = (final, log)"
  shows "statusCode final = 404 \<and> body final = Some ''Not found''
         \<and> final = plainText 404 ''Not found'' res'
         \<and> invocations log = map (\<lambda>m. (kind m, source m)) ms"
proof -
  let ?h = "hostnameOf req"
  let ?res1 = "securityHeaders certDomainSet ?h res"
  have ne: "ms \<noteq> []" using assms(1) buildDomainAppMap_nonempty [of servers statics proxies ?h] by auto
  have run: "runNextApp ?h req ms 0 (?res1, []) = (final, log)"
    using httpsRequestHandler_route [where domainToApp = "buildDomainAppMap servers statics proxies", OF assms(1) ne] assms(4) by simp
  have f: "fallRun ?h req ms ?res1 = Some (res', [])"
    using assms(3) by (rule deferRun_fallRun)
  have ns: "\<not> headersSent ?res1" using assms(2) by simp
  from fallRun_all [OF f ns] run show ?thesis by simp
qed


lemma absorbThrow_kind [simp]: "kind (absorbThrow m) = kind m"
  by (simp add: absorbThrow_def)

lemma absorbThrow_source [simp]: "source (absorbThrow m) = source m"
  by (simp add: absorbThrow_def)

lemma absorbThrow_app:
  "app (absorbThrow m) req res =
     (case app m req res of (res', Throws e) \<Rightarrow> (res', CallsNext) | (res', sg) \<Rightarrow> (res', sg))"
  by (simp add: absorbThrow_def)

lemma invocations_snoc_Invoked:
  "invocations (l @ [Invoked k s r]) = invocations l @ [(k, s)]"
  by (simp add: invocations_append)

lemma invocations_snoc_Invoked_Error:
  "invocations (l @ [Invoked k s r, ErrorLogged h s' e]) = invocations l @ [(k, s)]"
  by (simp add: invocations_append)

text \<open>The walk over a chain and the walk over the same chain with every throw replaced by
  \<open>next()\<close> end in the same response and invoke the same handlers.\<close>

lemma absorbThrow_walk:
  "invocations l1 = invocations l2 \<Longrightarrow>
   fst (runNextApp h req (map absorbThrow ms) i (res, l1)) = fst (runNextApp h req ms i (res, l2))
   \<and> invocations (snd (runNextApp h req (map absorbThrow ms) i (res, l1)))
       = invocations (snd (runNextApp h req ms i (res, l2)))"
proof (induction "length ms - i" arbitrary: i res l1 l2)
  case 0
  then show ?case by (cases "headersSent res") (simp_all add: runNextApp_sent runNextApp_exhausted)
next
  case (Suc n)
  show ?case
  proof (cases "headersSent res")
    case True
    then show ?thesis using Suc.prems by (simp add: runNextApp_sent)
  next
    case False
    have i: "i < length ms" using Suc.hyps(2) by simp
    have i': "i < length (map absorbThrow ms)" using i by simp
    have n: "n = length ms - Suc i" using Suc.hyps(2) by simp
    obtain res' sg where a: "app (ms ! i) req res = (res', sg)" by (cases "app (ms ! i) req res")
    let ?inv = "Invoked (kind (ms ! i)) (source (ms ! i)) res"
    have nth: "map absorbThrow ms ! i = absorbThrow (ms ! i)" using i by simp
    have inv1: "invocations (l1 @ [?inv]) = invocations (l2 @ [?inv])"
      using Suc.prems by (simp add: invocations_snoc_Invoked)
    have inv2: "invocations (l1 @ [?inv]) = invocations (l2 @ [?inv, ErrorLogged h (source (ms ! i)) e])" for e
      using Suc.prems by (simp add: invocations_snoc_Invoked invocations_snoc_Invoked_Error)
    note ih1 = Suc.hyps(1) [OF n inv1, of res']
    note ih2 = Suc.hyps(1) [OF n inv2, of res']
    show ?thesis
    proof (cases sg)
      case CallsNext
      then have b: "app (absorbThrow (ms ! i)) req res = (res', CallsNext)"
        using a by (simp add: absorbThrow_app)
      show ?thesis
        using ih1 inv1 False i i' a b CallsNext
        by (simp add: runNextApp_step nth)
    next
      case (CallsNextErr e)
      then have b: "app (absorbThrow (ms ! i)) req res = (res', CallsNextErr e)"
        using a by (simp add: absorbThrow_app)
      show ?thesis
        using ih1 inv1 inv2 [of e] False i i' a b CallsNextErr
        by (simp add: runNextApp_step nth)
    next
      case (Throws e)
      then have b: "app (absorbThrow (ms ! i)) req res = (res', CallsNext)"
        using a by (simp add: absorbThrow_app)
      show ?thesis
        using ih2 [of e] inv2 [of e] False i i' a b Throws
        by (simp add: runNextApp_step nth)
    next
      case Returns
      then have b: "app (absorbThrow (ms ! i)) req res = (res', Returns)"
        using a by (simp add: absorbThrow_app)
      show ?thesis
        using inv1 False i i' a b Returns
        by (simp add: runNextApp_step nth)
    qed
  qed
qed

text \<open>
  \<^bold>\<open>C4 (as amended).\<close> A handler that throws is caught by the dispatcher: the request
  is answered as the chain in which every thrower calls \<open>next()\<close> instead answers it, with
  the same handlers invoked, so that the exception leaves no trace but the log. The throw is
  logged with the host name and the handler's provenance. If the thrower had already sent
  the response head the walk stops there; otherwise the walk continues with the next
  handler in the chain, and if after the throw no head is sent anywhere and the list is
  exhausted, the final status is 404 \<open>Not found\<close>.
\<close>

theorem thrown_error_falls_through:
  assumes "\<not> headersSent res"
    and "domainToApp (hostnameOf req) = Some ms" and "i < length ms"
    and "fallRun (hostnameOf req) req (take i ms)
           (securityHeaders certDomainSet (hostnameOf req) res) = Some (resi, errs)"
    and "app (ms ! i) req resi = (res', Throws e)"
    and "httpsRequestHandler domainToApp certDomainSet req res = (final, log)"
  shows "fst (httpsRequestHandler (absorbThrows domainToApp) certDomainSet req res) = final
     \<and> invocations (snd (httpsRequestHandler (absorbThrows domainToApp) certDomainSet req res))
         = invocations log
     \<and> take (length errs + 1) (errorsLogged log) = errs @ [(hostnameOf req, source (ms ! i), e)]
     \<and> (headersSent res' \<longrightarrow>
          final = res' \<and> invocations log = map (\<lambda>m. (kind m, source m)) (take (Suc i) ms)
          \<and> errorsLogged log = errs @ [(hostnameOf req, source (ms ! i), e)])
     \<and> (\<not> headersSent res' \<and> Suc i < length ms \<longrightarrow>
          take (Suc (Suc i)) (invocations log) = map (\<lambda>m. (kind m, source m)) (take (Suc (Suc i)) ms))
     \<and> (\<not> headersSent res' \<and> fallRun (hostnameOf req) req (drop (Suc i) ms) res' = Some (res'', errs') \<longrightarrow>
          final = plainText 404 ''Not found'' res'' \<and> statusCode final = 404
          \<and> invocations log = map (\<lambda>m. (kind m, source m)) ms
          \<and> errorsLogged log = errs @ (hostnameOf req, source (ms ! i), e) # errs')"
proof -
  let ?h = "hostnameOf req"
  let ?res1 = "securityHeaders certDomainSet ?h res"
  let ?inv = "Invoked (kind (ms ! i)) (source (ms ! i)) resi"
  let ?err = "ErrorLogged ?h (source (ms ! i)) e"
  have ne: "ms \<noteq> []" using assms(3) by auto
  have run: "runNextApp ?h req ms 0 (?res1, []) = (final, log)"
    using httpsRequestHandler_route [where domainToApp = domainToApp, OF assms(2) ne] assms(6) by simp
  have ns: "\<not> headersSent ?res1" using assms(1) by simp
  have f: "fallRun ?h req (take i (drop 0 ms)) ?res1 = Some (resi, errs)" using assms(4) by simp
  from fallRun_walk [OF f ns, of "[]"] assms(3)
  obtain log0 where 1: "runNextApp ?h req ms 0 (?res1, []) = runNextApp ?h req ms i (resi, log0)"
    and 2: "invocations log0 = map (\<lambda>m. (kind m, source m)) (take i ms)"
    and 3: "errorsLogged log0 = errs" and 4: "\<not> headersSent resi"
    by auto
  have step: "runNextApp ?h req ms i (resi, log0) =
     (if \<not> headersSent res' then runNextApp ?h req ms (Suc i) (res', log0 @ [?inv, ?err])
      else (res', log0 @ [?inv, ?err]))"
    using 4 assms(3,5) by (simp add: runNextApp_step)
  have tk: "take (Suc i) ms = take i ms @ [ms ! i]"
    using assms(3) by (simp add: take_Suc_conv_app_nth)
  have inv01: "invocations (log0 @ [?inv, ?err]) = map (\<lambda>m. (kind m, source m)) (take (Suc i) ms)"
    using 2 tk by simp
  have err01: "errorsLogged (log0 @ [?inv, ?err]) = errs @ [(?h, source (ms ! i), e)]"
    using 3 by simp
  obtain evs where evs: "log = (log0 @ [?inv, ?err]) @ evs"
  proof (cases "headersSent res'")
    case True
    then have "log = (log0 @ [?inv, ?err]) @ []" using run 1 step by simp
    then show ?thesis by (rule that)
  next
    case False
    from runNextApp_extends [of ?h req ms "Suc i" res' "log0 @ [?inv, ?err]"]
    obtain m where "snd (runNextApp ?h req ms (Suc i) (res', log0 @ [?inv, ?err])) = (log0 @ [?inv, ?err]) @ m"
      by blast
    then have "log = (log0 @ [?inv, ?err]) @ m" using run 1 step False by simp
    then show ?thesis by (rule that)
  qed
  have c1: "take (length errs + 1) (errorsLogged log) = errs @ [(?h, source (ms ! i), e)]"
    unfolding evs using err01 by simp
  have c2: "final = res' \<and> invocations log = map (\<lambda>m. (kind m, source m)) (take (Suc i) ms)
          \<and> errorsLogged log = errs @ [(?h, source (ms ! i), e)]"
    if "headersSent res'"
    using that run 1 step inv01 err01 by simp
  have c3: "take (Suc (Suc i)) (invocations log) = map (\<lambda>m. (kind m, source m)) (take (Suc (Suc i)) ms)"
    if "\<not> headersSent res' \<and> Suc i < length ms"
  proof -
    from that have a: "\<not> headersSent res'" and b: "Suc i < length ms" by simp_all
    from runNextApp_first [OF a b, of ?h req "log0 @ [?inv, ?err]"]
    obtain m where "snd (runNextApp ?h req ms (Suc i) (res', log0 @ [?inv, ?err]))
        = (log0 @ [?inv, ?err]) @ Invoked (kind (ms ! Suc i)) (source (ms ! Suc i)) res' # m"
      by blast
    then have l: "log = (log0 @ [?inv, ?err]) @ Invoked (kind (ms ! Suc i)) (source (ms ! Suc i)) res' # m"
      using run 1 step a by simp
    have len: "length (map (\<lambda>m. (kind m, source m)) (take (Suc i) ms)) = Suc i"
      using b by simp
    have "invocations log = map (\<lambda>m. (kind m, source m)) (take (Suc i) ms)
            @ (kind (ms ! Suc i), source (ms ! Suc i)) # invocations m"
      unfolding l using inv01 by simp
    then have "take (Suc (Suc i)) (invocations log)
        = map (\<lambda>m. (kind m, source m)) (take (Suc i) ms) @ [(kind (ms ! Suc i), source (ms ! Suc i))]"
      using len by simp
    also have "\<dots> = map (\<lambda>m. (kind m, source m)) (take (Suc (Suc i)) ms)"
      using b by (simp add: take_Suc_conv_app_nth [of "Suc i"])
    finally show ?thesis .
  qed
  have c4: "final = plainText 404 ''Not found'' res'' \<and> statusCode final = 404
          \<and> invocations log = map (\<lambda>m. (kind m, source m)) ms
          \<and> errorsLogged log = errs @ (?h, source (ms ! i), e) # errs'"
    if "\<not> headersSent res' \<and> fallRun ?h req (drop (Suc i) ms) res' = Some (res'', errs')"
  proof -
    from that have a: "\<not> headersSent res'"
      and b: "fallRun ?h req (take (length ms - Suc i) (drop (Suc i) ms)) res' = Some (res'', errs')"
      by simp_all
    have le: "Suc i + (length ms - Suc i) \<le> length ms" using assms(3) by simp
    have eq: "Suc i + (length ms - Suc i) = length ms" using assms(3) by simp
    have dr: "take (length ms - Suc i) (drop (Suc i) ms) = drop (Suc i) ms" by simp
    from fallRun_walk [OF b a le, of "log0 @ [?inv, ?err]", unfolded eq dr]
    obtain log1 where 5: "runNextApp ?h req ms (Suc i) (res', log0 @ [?inv, ?err])
          = runNextApp ?h req ms (length ms) (res'', (log0 @ [?inv, ?err]) @ log1)"
      and 6: "invocations log1 = map (\<lambda>m. (kind m, source m)) (drop (Suc i) ms)"
      and 7: "errorsLogged log1 = errs'" and 8: "\<not> headersSent res''"
      by blast
    have 9: "runNextApp ?h req ms (length ms) (res'', (log0 @ [?inv, ?err]) @ log1)
           = (plainText 404 ''Not found'' res'', (log0 @ [?inv, ?err]) @ log1)"
      using 8 by (simp add: runNextApp_exhausted)
    have fl: "final = plainText 404 ''Not found'' res''" and l: "log = (log0 @ [?inv, ?err]) @ log1"
      using run 1 step a 5 9 by simp_all
    have "invocations log = invocations (log0 @ [?inv, ?err]) @ invocations log1"
      unfolding l by (rule invocations_append)
    also have "\<dots> = map (\<lambda>m. (kind m, source m)) (take (Suc i) ms)
                     @ map (\<lambda>m. (kind m, source m)) (drop (Suc i) ms)"
      by (simp only: inv01 6)
    also have "\<dots> = map (\<lambda>m. (kind m, source m)) (take (Suc i) ms @ drop (Suc i) ms)"
      by (rule map_append [symmetric])
    finally have "invocations log = map (\<lambda>m. (kind m, source m)) ms"
      by (simp only: append_take_drop_id)
    moreover have "errorsLogged log = errorsLogged (log0 @ [?inv, ?err]) @ errorsLogged log1"
      unfolding l by (rule errorsLogged_append)
    then have "errorsLogged log = errs @ (?h, source (ms ! i), e) # errs'"
      by (simp only: err01 7 append_assoc append_Cons append_Nil)
    ultimately show ?thesis using fl by simp
  qed
  have ab: "absorbThrows domainToApp ?h = Some (map absorbThrow ms)"
    using assms(2) by (simp add: absorbThrows_def)
  have ne': "map absorbThrow ms \<noteq> []" using ne by simp
  have run': "httpsRequestHandler (absorbThrows domainToApp) certDomainSet req res
      = runNextApp ?h req (map absorbThrow ms) 0 (?res1, [])"
    using httpsRequestHandler_route [where domainToApp = "absorbThrows domainToApp", OF ab ne'] .
  have "invocations ([] :: event list) = invocations []" by simp
  from absorbThrow_walk [OF this, of ?h req ms 0 ?res1]
  have c0: "fst (httpsRequestHandler (absorbThrows domainToApp) certDomainSet req res) = final
     \<and> invocations (snd (httpsRequestHandler (absorbThrows domainToApp) certDomainSet req res))
         = invocations log"
    unfolding run' run by simp
  show ?thesis using c0 c1 c2 c3 c4 by blast
qed


theorem no_route_502_witness:
  "statusCode (fst (httpsRequestHandler
       (buildDomainAppMap [] []
          [\<lparr>ad_domains = [''a.com''], ad_app = (\<lambda>rq rs. (rs, CallsNext)),
            ad_filename = ''a.3000.proxy.hts'', ad_kind = None\<rparr>])
       {} \<lparr>hostHeader = Some ''b.com'', url = ''/''\<rparr>
       \<lparr>statusCode = 200, headers = Map.empty, headersSent = False, body = None\<rparr>)) = 502
   \<and> invocations (snd (httpsRequestHandler
       (buildDomainAppMap [] []
          [\<lparr>ad_domains = [''a.com''], ad_app = (\<lambda>rq rs. (rs, CallsNext)),
            ad_filename = ''a.3000.proxy.hts'', ad_kind = None\<rparr>])
       {} \<lparr>hostHeader = Some ''b.com'', url = ''/''\<rparr>
       \<lparr>statusCode = 200, headers = Map.empty, headersSent = False, body = None\<rparr>)) = []"
proof -
  let ?p = "\<lparr>ad_domains = [''a.com''], ad_app = (\<lambda>rq rs. (rs, CallsNext)),
            ad_filename = ''a.3000.proxy.hts'', ad_kind = None\<rparr>"
  let ?req = "\<lparr>hostHeader = Some ''b.com'', url = ''/''\<rparr>"
  let ?res = "\<lparr>statusCode = 200, headers = Map.empty, headersSent = False, body = None\<rparr>"
  let ?tbl = "buildDomainAppMap [] [] [?p]"
  have n2: "toLowerCase (trim ''a.com'') = ''a.com''" by code_simp
  have h: "hostnameOf ?req = ''b.com''" by code_simp
  have none: "?tbl (hostnameOf ?req) = None"
    unfolding h by (simp add: buildDomainAppMap_lookup declaredBy_def n2)
  have ns: "\<not> headersSent ?res" by simp
  from no_route_502 [where domainToApp = ?tbl, OF none ns, of "{}"
      "fst (httpsRequestHandler ?tbl {} ?req ?res)" "snd (httpsRequestHandler ?tbl {} ?req ?res)"]
  show ?thesis by simp
qed

theorem all_defer_404_witness:
  "statusCode (fst (httpsRequestHandler
       (buildDomainAppMap []
          [\<lparr>ad_domains = [''a.com''], ad_app = (\<lambda>rq rs. (rs, CallsNext)),
            ad_filename = ''a.static.hts'', ad_kind = None\<rparr>] [])
       {} \<lparr>hostHeader = Some ''a.com'', url = ''/missing.html''\<rparr>
       \<lparr>statusCode = 200, headers = Map.empty, headersSent = False, body = None\<rparr>)) = 404
   \<and> body (fst (httpsRequestHandler
       (buildDomainAppMap []
          [\<lparr>ad_domains = [''a.com''], ad_app = (\<lambda>rq rs. (rs, CallsNext)),
            ad_filename = ''a.static.hts'', ad_kind = None\<rparr>] [])
       {} \<lparr>hostHeader = Some ''a.com'', url = ''/missing.html''\<rparr>
       \<lparr>statusCode = 200, headers = Map.empty, headersSent = False, body = None\<rparr>))
     = Some ''Not found''"
proof -
  let ?s = "\<lparr>ad_domains = [''a.com''], ad_app = (\<lambda>rq rs. (rs, CallsNext)),
            ad_filename = ''a.static.hts'', ad_kind = None\<rparr>"
  let ?req = "\<lparr>hostHeader = Some ''a.com'', url = ''/missing.html''\<rparr>"
  let ?res = "\<lparr>statusCode = 200, headers = Map.empty, headersSent = False, body = None\<rparr>"
  let ?tbl = "buildDomainAppMap [] [?s] []"
  let ?ms = "[\<lparr>app = (\<lambda>rq rs. (rs, CallsNext)), source = ''a.static.hts'', kind = ''static''\<rparr>]"
  have n2: "toLowerCase (trim ''a.com'') = ''a.com''" by code_simp
  have h: "hostnameOf ?req = ''a.com''" by code_simp
  have some: "?tbl (hostnameOf ?req) = Some ?ms"
    unfolding h by (simp add: buildDomainAppMap_lookup declaredBy_def n2)
  have ns: "\<not> headersSent ?res" by simp
  have d: "deferRun ?req ?ms (securityHeaders {} (hostnameOf ?req) ?res) = Some ?res"
    by (simp add: securityHeaders_def)
  from all_defer_404 [OF some ns d, of "fst (httpsRequestHandler ?tbl {} ?req ?res)"
      "snd (httpsRequestHandler ?tbl {} ?req ?res)"]
  show ?thesis by simp
qed


text \<open>
  The claim C4 as first stated ends in status 500 when a handler throws, no head is sent
  and the list is exhausted. A single application handler that throws shows otherwise:
  the error is logged and the answer is 404.
\<close>

theorem throw_then_exhausted_is_404_not_500:
  "statusCode (fst (httpsRequestHandler
       (buildDomainAppMap
          [\<lparr>ad_domains = [''a.com''], ad_app = (\<lambda>rq rs. (rs, Throws ''boom'')),
            ad_filename = ''app.hts.js'', ad_kind = None\<rparr>] [] [])
       {} \<lparr>hostHeader = Some ''a.com'', url = ''/''\<rparr>
       \<lparr>statusCode = 200, headers = Map.empty, headersSent = False, body = None\<rparr>)) = 404
   \<and> statusCode (fst (httpsRequestHandler
       (buildDomainAppMap
          [\<lparr>ad_domains = [''a.com''], ad_app = (\<lambda>rq rs. (rs, Throws ''boom'')),
            ad_filename = ''app.hts.js'', ad_kind = None\<rparr>] [] [])
       {} \<lparr>hostHeader = Some ''a.com'', url = ''/''\<rparr>
       \<lparr>statusCode = 200, headers = Map.empty, headersSent = False, body = None\<rparr>)) \<noteq> 500
   \<and> errorsLogged (snd (httpsRequestHandler
       (buildDomainAppMap
          [\<lparr>ad_domains = [''a.com''], ad_app = (\<lambda>rq rs. (rs, Throws ''boom'')),
            ad_filename = ''app.hts.js'', ad_kind = None\<rparr>] [] [])
       {} \<lparr>hostHeader = Some ''a.com'', url = ''/''\<rparr>
       \<lparr>statusCode = 200, headers = Map.empty, headersSent = False, body = None\<rparr>))
     = [(''a.com'', ''app.hts.js'', ''boom'')]"
  by code_simp

theorem thrown_error_falls_through_witness:
  "fst (httpsRequestHandler
       (buildDomainAppMap
          [\<lparr>ad_domains = [''a.com''], ad_app = (\<lambda>rq rs. (rs, CallsNextErr [])),
            ad_filename = ''app.hts.js'', ad_kind = None\<rparr>]
          [\<lparr>ad_domains = [''a.com''], ad_app = (\<lambda>rq rs. (rs, Throws ''boom'')),
            ad_filename = ''a.static.hts'', ad_kind = None\<rparr>]
          [\<lparr>ad_domains = [''a.com''], ad_app = (\<lambda>rq rs. (rs, CallsNext)),
            ad_filename = ''a.3000.proxy.hts'', ad_kind = None\<rparr>])
       {} \<lparr>hostHeader = Some ''a.com'', url = ''/''\<rparr>
       \<lparr>statusCode = 200, headers = Map.empty, headersSent = False, body = None\<rparr>)
     = plainText 404 ''Not found''
         \<lparr>statusCode = 200, headers = Map.empty, headersSent = False, body = None\<rparr>
   \<and> invocations (snd (httpsRequestHandler
       (buildDomainAppMap
          [\<lparr>ad_domains = [''a.com''], ad_app = (\<lambda>rq rs. (rs, CallsNextErr [])),
            ad_filename = ''app.hts.js'', ad_kind = None\<rparr>]
          [\<lparr>ad_domains = [''a.com''], ad_app = (\<lambda>rq rs. (rs, Throws ''boom'')),
            ad_filename = ''a.static.hts'', ad_kind = None\<rparr>]
          [\<lparr>ad_domains = [''a.com''], ad_app = (\<lambda>rq rs. (rs, CallsNext)),
            ad_filename = ''a.3000.proxy.hts'', ad_kind = None\<rparr>])
       {} \<lparr>hostHeader = Some ''a.com'', url = ''/''\<rparr>
       \<lparr>statusCode = 200, headers = Map.empty, headersSent = False, body = None\<rparr>))
     = [(''proxy'', ''a.3000.proxy.hts''), (''static'', ''a.static.hts''), (''express'', ''app.hts.js'')]
   \<and> errorsLogged (snd (httpsRequestHandler
       (buildDomainAppMap
          [\<lparr>ad_domains = [''a.com''], ad_app = (\<lambda>rq rs. (rs, CallsNextErr [])),
            ad_filename = ''app.hts.js'', ad_kind = None\<rparr>]
          [\<lparr>ad_domains = [''a.com''], ad_app = (\<lambda>rq rs. (rs, Throws ''boom'')),
            ad_filename = ''a.static.hts'', ad_kind = None\<rparr>]
          [\<lparr>ad_domains = [''a.com''], ad_app = (\<lambda>rq rs. (rs, CallsNext)),
            ad_filename = ''a.3000.proxy.hts'', ad_kind = None\<rparr>])
       {} \<lparr>hostHeader = Some ''a.com'', url = ''/''\<rparr>
       \<lparr>statusCode = 200, headers = Map.empty, headersSent = False, body = None\<rparr>))
     = [(''a.com'', ''a.static.hts'', ''boom'')]
   \<and> fst (httpsRequestHandler
       (buildDomainAppMap
          [\<lparr>ad_domains = [''a.com''], ad_app = (\<lambda>rq rs. (endResponse ''page'' rs, Returns)),
            ad_filename = ''app.hts.js'', ad_kind = None\<rparr>]
          [\<lparr>ad_domains = [''a.com''], ad_app = (\<lambda>rq rs. (endResponse ''partial'' rs, Throws ''late'')),
            ad_filename = ''a.static.hts'', ad_kind = None\<rparr>]
          [])
       {} \<lparr>hostHeader = Some ''a.com'', url = ''/''\<rparr>
       \<lparr>statusCode = 200, headers = Map.empty, headersSent = False, body = None\<rparr>)
     = endResponse ''partial''
         \<lparr>statusCode = 200, headers = Map.empty, headersSent = False, body = None\<rparr>
   \<and> invocations (snd (httpsRequestHandler
       (buildDomainAppMap
          [\<lparr>ad_domains = [''a.com''], ad_app = (\<lambda>rq rs. (endResponse ''page'' rs, Returns)),
            ad_filename = ''app.hts.js'', ad_kind = None\<rparr>]
          [\<lparr>ad_domains = [''a.com''], ad_app = (\<lambda>rq rs. (endResponse ''partial'' rs, Throws ''late'')),
            ad_filename = ''a.static.hts'', ad_kind = None\<rparr>]
          [])
       {} \<lparr>hostHeader = Some ''a.com'', url = ''/''\<rparr>
       \<lparr>statusCode = 200, headers = Map.empty, headersSent = False, body = None\<rparr>))
     = [(''static'', ''a.static.hts'')]
   \<and> errorsLogged (snd (httpsRequestHandler
       (buildDomainAppMap
          [\<lparr>ad_domains = [''a.com''], ad_app = (\<lambda>rq rs. (endResponse ''page'' rs, Returns)),
            ad_filename = ''app.hts.js'', ad_kind = None\<rparr>]
          [\<lparr>ad_domains = [''a.com''], ad_app = (\<lambda>rq rs. (endResponse ''partial'' rs, Throws ''late'')),
            ad_filename = ''a.static.hts'', ad_kind = None\<rparr>]
          [])
       {} \<lparr>hostHeader = Some ''a.com'', url = ''/''\<rparr>
       \<lparr>statusCode = 200, headers = Map.empty, headersSent = False, body = None\<rparr>))
     = [(''a.com'', ''a.static.hts'', ''late'')]"
proof -
  let ?req = "\<lparr>hostHeader = Some ''a.com'', url = ''/''\<rparr>"
  let ?res = "\<lparr>statusCode = 200, headers = Map.empty, headersSent = False, body = None\<rparr>"
  have n: "toLowerCase (trim ''a.com'') = ''a.com''" by code_simp
  have h: "hostnameOf ?req = ''a.com''" by code_simp
  have ns: "\<not> headersSent ?res" by simp
  \<comment> \<open>a proxy that defers, a static handler that throws, an application that calls \<open>next('')\<close>\<close>
  let ?tblA = "buildDomainAppMap
          [\<lparr>ad_domains = [''a.com''], ad_app = (\<lambda>rq rs. (rs, CallsNextErr [])),
            ad_filename = ''app.hts.js'', ad_kind = None\<rparr>]
          [\<lparr>ad_domains = [''a.com''], ad_app = (\<lambda>rq rs. (rs, Throws ''boom'')),
            ad_filename = ''a.static.hts'', ad_kind = None\<rparr>]
          [\<lparr>ad_domains = [''a.com''], ad_app = (\<lambda>rq rs. (rs, CallsNext)),
            ad_filename = ''a.3000.proxy.hts'', ad_kind = None\<rparr>]"
  let ?P = "\<lparr>app = (\<lambda>rq rs. (rs, CallsNext)), source = ''a.3000.proxy.hts'', kind = ''proxy''\<rparr>"
  let ?S = "\<lparr>app = (\<lambda>rq rs. (rs, Throws ''boom'')), source = ''a.static.hts'', kind = ''static''\<rparr>"
  let ?E = "\<lparr>app = (\<lambda>rq rs. (rs, CallsNextErr [])), source = ''app.hts.js'', kind = ''express''\<rparr>"
  let ?msA = "[?P, ?S, ?E]"
  let ?rA = "httpsRequestHandler ?tblA {} ?req ?res"
  have tA: "?tblA (hostnameOf ?req) = Some ?msA"
    unfolding h by (simp add: buildDomainAppMap_lookup declaredBy_def n)
  have iA: "Suc 0 < length ?msA" by simp
  have fA: "fallRun (hostnameOf ?req) ?req (take (Suc 0) ?msA) (securityHeaders {} (hostnameOf ?req) ?res)
             = Some (?res, [])"
    by (simp add: securityHeaders_def)
  have aA: "app (?msA ! Suc 0) ?req ?res = (?res, Throws ''boom'')" by simp
  have rA: "?rA = (fst ?rA, snd ?rA)" by simp
  have gA: "fallRun (hostnameOf ?req) ?req (drop (Suc (Suc 0)) ?msA) ?res = Some (?res, [])" by simp
  from thrown_error_falls_through [where domainToApp = ?tblA, OF ns tA iA fA aA rA, of ?res "[]"] gA h
  have A: "fst ?rA = plainText 404 ''Not found'' ?res
     \<and> invocations (snd ?rA)
         = [(''proxy'', ''a.3000.proxy.hts''), (''static'', ''a.static.hts''), (''express'', ''app.hts.js'')]
     \<and> errorsLogged (snd ?rA) = [(''a.com'', ''a.static.hts'', ''boom'')]"
    by simp
  \<comment> \<open>a static handler that throws after it has answered, in front of an application\<close>
  let ?tblB = "buildDomainAppMap
          [\<lparr>ad_domains = [''a.com''], ad_app = (\<lambda>rq rs. (endResponse ''page'' rs, Returns)),
            ad_filename = ''app.hts.js'', ad_kind = None\<rparr>]
          [\<lparr>ad_domains = [''a.com''], ad_app = (\<lambda>rq rs. (endResponse ''partial'' rs, Throws ''late'')),
            ad_filename = ''a.static.hts'', ad_kind = None\<rparr>]
          []"
  let ?S2 = "\<lparr>app = (\<lambda>rq rs. (endResponse ''partial'' rs, Throws ''late'')),
             source = ''a.static.hts'', kind = ''static''\<rparr>"
  let ?E2 = "\<lparr>app = (\<lambda>rq rs. (endResponse ''page'' rs, Returns)),
             source = ''app.hts.js'', kind = ''express''\<rparr>"
  let ?msB = "[?S2, ?E2]"
  let ?rB = "httpsRequestHandler ?tblB {} ?req ?res"
  have tB: "?tblB (hostnameOf ?req) = Some ?msB"
    unfolding h by (simp add: buildDomainAppMap_lookup declaredBy_def n)
  have iB: "0 < length ?msB" by simp
  have fB: "fallRun (hostnameOf ?req) ?req (take 0 ?msB) (securityHeaders {} (hostnameOf ?req) ?res)
             = Some (?res, [])"
    by (simp add: securityHeaders_def)
  have aB: "app (?msB ! 0) ?req ?res = (endResponse ''partial'' ?res, Throws ''late'')" by simp
  have rB: "?rB = (fst ?rB, snd ?rB)" by simp
  have sB: "headersSent (endResponse ''partial'' ?res)" by (simp add: endResponse_def)
  from thrown_error_falls_through [where domainToApp = ?tblB, OF ns tB iB fB aB rB] sB h
  have B: "fst ?rB = endResponse ''partial'' ?res
     \<and> invocations (snd ?rB) = [(''static'', ''a.static.hts'')]
     \<and> errorsLogged (snd ?rB) = [(''a.com'', ''a.static.hts'', ''late'')]"
    by simp
  show ?thesis using A B by simp
qed

section \<open>Descriptor files: proofs\<close>

subsection \<open>Trimming and sanitising\<close>

lemma dropWhile_rev_fixed:
  "dropWhile P (rev (dropWhile P (rev xs))) = rev (dropWhile P (rev xs))
     \<longleftrightarrow> (dropWhile P (rev xs) = [] \<or> \<not> P (hd xs))"
proof (cases "dropWhile P (rev xs) = []")
  case True show ?thesis unfolding True by simp
next
  case False
  then have ne: "xs \<noteq> []" by auto
  obtain ys where ys: "rev xs = takeWhile P (rev xs) @ dropWhile P (rev xs)" by simp
  have "hd (rev (dropWhile P (rev xs))) = last (dropWhile P (rev xs))" by (simp add: hd_rev)
  also have "\<dots> = last (rev xs)" using False by (metis last_appendR takeWhile_dropWhile_id)
  also have "\<dots> = hd xs" by (simp add: last_rev)
  finally show ?thesis using False by (simp add: dropWhile_eq_self_iff)
qed

lemma trim_idem [simp]: "trim (trim s) = trim s"
proof -
  let ?a = "dropWhile isWhiteSpace s"
  let ?b = "rev (dropWhile isWhiteSpace (rev ?a))"
  have 1: "dropWhile isWhiteSpace ?b = ?b"
  proof (cases "dropWhile isWhiteSpace (rev ?a) = []")
    case True show ?thesis unfolding True by simp
  next
    case False
    have "?a \<noteq> []"
    proof
      assume "?a = []"
      then have "dropWhile isWhiteSpace (rev ?a) = []" by (simp only: rev.simps dropWhile.simps)
      with False show False by contradiction
    qed
    then have "\<not> isWhiteSpace (hd ?a)" by (rule hd_dropWhile)
    then show ?thesis using dropWhile_rev_fixed [of isWhiteSpace ?a] by simp
  qed
  show ?thesis unfolding trim_def 1 by simp
qed

lemma set_trim: "set (trim s) \<subseteq> set s"
  unfolding trim_def by (auto dest!: set_dropWhileD)

lemma set_stripScheme: "set (stripScheme s) \<subseteq> set s"
  unfolding stripScheme_def by (auto dest: in_set_dropD)

lemma set_stripTrailingSlashes: "set (stripTrailingSlashes s) \<subseteq> set s"
  unfolding stripTrailingSlashes_def by (auto dest!: set_dropWhileD)

lemma set_sanitizeDomain: "set (sanitizeDomain s) \<subseteq> set s"
  unfolding sanitizeDomain_def
  using set_stripTrailingSlashes set_stripScheme set_trim by blast

lemma sanitizeDomain_trim [simp]: "sanitizeDomain (trim s) = sanitizeDomain s"
  by (simp add: sanitizeDomain_def)

lemma set_firstSpaceToken: "set (firstSpaceToken l) \<subseteq> set l - {CHR '' ''}"
  unfolding firstSpaceToken_def by (auto dest: set_takeWhileD)

lemma firstSpaceToken_id: "CHR '' '' \<notin> set l \<Longrightarrow> firstSpaceToken l = l"
  unfolding firstSpaceToken_def by (induction l) auto

lemma set_lineOut: "set (lineOut l) \<subseteq> set l - {CHR '' ''}"
proof -
  have "set (sanitizeDomain (trim (firstSpaceToken l))) \<subseteq> set (firstSpaceToken l)"
    using set_sanitizeDomain set_trim by blast
  then show ?thesis using set_firstSpaceToken [of l] by (auto simp: lineOut_def Let_def)
qed

subsection \<open>The loop over the lines\<close>

lemma fold_parseLine:
  "fold parseLine ls st =
     \<lparr>ps_domains = ps_domains st @ concat (map lineDomains ls),
      ps_rewrittenLines = ps_rewrittenLines st @ map lineOut ls,
      ps_changed = ps_changed (fold parseLine ls st)\<rparr>"
proof (induction ls arbitrary: st)
  case Nil
  then show ?case by simp
next
  case (Cons l ls)
  have d: "ps_domains (parseLine l st) = ps_domains st @ lineDomains l"
    by (simp add: parseLine_def lineDomains_def Let_def)
  have r: "ps_rewrittenLines (parseLine l st) = ps_rewrittenLines st @ [lineOut l]"
    by (simp add: parseLine_def lineOut_def Let_def)
  show ?case
    using Cons.IH [of "parseLine l st"] by (simp add: d r)
qed

lemma parseLines_domains: "ps_domains (parseLines c) = concat (map lineDomains (splitLines c))"
  unfolding parseLines_def by (subst fold_parseLine) simp

lemma parseLines_rewritten: "ps_rewrittenLines (parseLines c) = map lineOut (splitLines c)"
  unfolding parseLines_def by (subst fold_parseLine) simp

subsection \<open>Splitting and joining\<close>

lemma splitLines_nonempty [simp]: "splitLines s \<noteq> []"
  by (induction s rule: splitLines.induct) (auto split: list.splits)

lemma splitLines_no_newline: "l \<in> set (splitLines s) \<Longrightarrow> CHR 0x0A \<notin> set l"
proof (induction s arbitrary: l rule: splitLines.induct)
  case 1 then show ?case by simp
next
  case (2 c cs)
  show ?case
  proof (cases "c = CHR 0x0A")
    case True
    with 2 show ?thesis by auto
  next
    case nl: False
    show ?thesis
    proof (cases "c = CHR 0x0D \<and> cs \<noteq> [] \<and> hd cs = CHR 0x0A")
      case True
      with 2 nl show ?thesis by auto
    next
      case False
      obtain x xs where sp: "splitLines cs = x # xs" by (cases "splitLines cs") auto
      from "2.prems" nl False sp have "l = c # x \<or> l \<in> set xs" by auto
      then show ?thesis
        using "2.IH"(3) [OF nl False] sp nl by auto
    qed
  qed
qed

lemma splitLines_single: "CHR 0x0A \<notin> set l \<Longrightarrow> splitLines l = [l]"
proof (induction l)
  case Nil then show ?case by simp
next
  case (Cons c cs)
  then have "c \<noteq> CHR 0x0A" "CHR 0x0A \<notin> set cs" by auto
  moreover from this have "\<not> (cs \<noteq> [] \<and> hd cs = CHR 0x0A)" by (cases cs) auto
  ultimately show ?case using Cons.IH by simp
qed

lemma splitLines_line:
  "CHR 0x0A \<notin> set l \<Longrightarrow> \<not> endsWithCR l \<Longrightarrow>
   splitLines (l @ CHR 0x0A # rest) = l # splitLines rest"
proof (induction l)
  case Nil then show ?case by simp
next
  case (Cons c cs)
  have c: "c \<noteq> CHR 0x0A" and cs: "CHR 0x0A \<notin> set cs" using Cons.prems(1) by auto
  have ncr: "\<not> endsWithCR cs" using Cons.prems(2) by (auto simp: endsWithCR_def)
  have "\<not> (c = CHR 0x0D \<and> hd (cs @ CHR 0x0A # rest) = CHR 0x0A)"
  proof
    assume a: "c = CHR 0x0D \<and> hd (cs @ CHR 0x0A # rest) = CHR 0x0A"
    then have "cs = []" using cs by (cases cs) auto
    with a Cons.prems(2) show False by (simp add: endsWithCR_def)
  qed
  then show ?case using c Cons.IH [OF cs ncr] by auto
qed

lemma splitLines_joinWith:
  "ls \<noteq> [] \<Longrightarrow> \<forall>l \<in> set ls. CHR 0x0A \<notin> set l \<Longrightarrow>
   \<forall>l \<in> set (butlast ls). \<not> endsWithCR l \<Longrightarrow>
   splitLines (joinWith [CHR 0x0A] ls) = ls"
proof (induction "[CHR 0x0A]" ls rule: joinWith.induct)
  case 1 then show ?case by simp
next
  case (2 l) then show ?case by (simp add: splitLines_single)
next
  case (3 l v va)
  have "splitLines (l @ CHR 0x0A # joinWith [CHR 0x0A] (v # va))
          = l # splitLines (joinWith [CHR 0x0A] (v # va))"
    using "3.prems" by (intro splitLines_line) auto
  moreover have "splitLines (joinWith [CHR 0x0A] (v # va)) = v # va"
    using "3.prems" by (intro "3.hyps") auto
  ultimately show ?case by simp
qed

subsection \<open>A second pass over normalised content\<close>

lemma lineOut_no_newline:
  "l \<in> set (splitLines c) \<Longrightarrow> CHR 0x0A \<notin> set (lineOut l)"
  using splitLines_no_newline [of l c] set_lineOut [of l] by auto

lemma lineOut_passthrough:
  assumes "isBlankOrComment (trim (firstSpaceToken l))"
  shows "lineOut (lineOut l) = lineOut l" and "lineDomains (lineOut l) = lineDomains l"
proof -
  have o: "lineOut l = firstSpaceToken l" using assms by (simp add: lineOut_def)
  have f: "firstSpaceToken (firstSpaceToken l) = firstSpaceToken l"
    using set_firstSpaceToken [of l] by (intro firstSpaceToken_id) auto
  show "lineOut (lineOut l) = lineOut l" unfolding o using assms f by (simp add: lineOut_def)
  show "lineDomains (lineOut l) = lineDomains l"
    unfolding o using assms f by (simp add: lineDomains_def)
qed

lemma lineOut_domain:
  assumes "\<not> isBlankOrComment (trim (firstSpaceToken l))"
    and "\<forall>d \<in> set (lineDomains l). normalForm d"
  shows "lineOut (lineOut l) = lineOut l" and "lineDomains (lineOut l) = lineDomains l"
proof -
  let ?s = "sanitizeDomain (trim (firstSpaceToken l))"
  have o: "lineOut l = ?s" using assms(1) by (simp add: lineOut_def)
  have f: "firstSpaceToken ?s = ?s"
    using set_lineOut [of l] unfolding o by (intro firstSpaceToken_id) auto
  have "lineOut ?s = ?s \<and> lineDomains ?s = lineDomains l"
  proof (cases "?s = []")
    case True
    have b: "isBlankOrComment (trim [])" by (simp add: isBlankOrComment_def trim_def)
    have "firstSpaceToken [] = []" by (simp add: firstSpaceToken_def)
    then have "lineOut [] = []" "lineDomains [] = []"
      using b by (simp_all add: lineOut_def lineDomains_def)
    moreover have "lineDomains l = []" using True by (simp add: lineDomains_def)
    ultimately show ?thesis using True by simp
  next
    case False
    then have ld: "lineDomains l = [?s]" using assms(1) by (simp add: lineDomains_def)
    then have nf: "normalForm ?s" using assms(2) by simp
    then have nb: "\<not> isBlankOrComment (trim ?s)" and fx: "sanitizeDomain ?s = ?s"
      by (simp_all add: normalForm_def)
    have "lineOut ?s = ?s" using f nb fx by (simp add: lineOut_def)
    moreover have "lineDomains ?s = [?s]" using f nb fx False by (simp add: lineDomains_def)
    ultimately show ?thesis using ld by simp
  qed
  then show "lineOut (lineOut l) = lineOut l" and "lineDomains (lineOut l) = lineDomains l"
    unfolding o by simp_all
qed

lemma second_pass_lines:
  assumes "\<forall>d \<in> set (concat (map lineDomains ls)). normalForm d"
  shows "map lineOut (map lineOut ls) = map lineOut ls
         \<and> concat (map lineDomains (map lineOut ls)) = concat (map lineDomains ls)"
  using assms
proof (induction ls)
  case Nil then show ?case by simp
next
  case (Cons l ls)
  have l: "\<forall>d \<in> set (lineDomains l). normalForm d" using Cons.prems by simp
  have "lineOut (lineOut l) = lineOut l \<and> lineDomains (lineOut l) = lineDomains l"
    using lineOut_passthrough [of l] lineOut_domain [OF _ l] by blast
  moreover have "map lineOut (map lineOut ls) = map lineOut ls
         \<and> concat (map lineDomains (map lineOut ls)) = concat (map lineDomains ls)"
    using Cons.IH Cons.prems by simp
  ultimately show ?case by simp
qed

lemma second_pass:
  assumes "\<forall>d \<in> set (ps_domains (parseLines c)). normalForm d"
    and "\<forall>l \<in> set (butlast (ps_rewrittenLines (parseLines c))). \<not> endsWithCR l"
  shows "ps_domains (parseLines (joinWith [CHR 0x0A] (ps_rewrittenLines (parseLines c))))
           = ps_domains (parseLines c)"
    and "ps_rewrittenLines (parseLines (joinWith [CHR 0x0A] (ps_rewrittenLines (parseLines c))))
           = ps_rewrittenLines (parseLines c)"
proof -
  let ?out = "map lineOut (splitLines c)"
  have ne: "?out \<noteq> []" by simp
  have nn: "\<forall>l \<in> set ?out. CHR 0x0A \<notin> set l" using lineOut_no_newline by auto
  have cr: "\<forall>l \<in> set (butlast ?out). \<not> endsWithCR l"
    using assms(2) by (simp add: parseLines_rewritten)
  have sp: "splitLines (joinWith [CHR 0x0A] ?out) = ?out"
    using ne nn cr by (rule splitLines_joinWith)
  have nf: "\<forall>d \<in> set (concat (map lineDomains (splitLines c))). normalForm d"
    using assms(1) by (simp add: parseLines_domains)
  note sl = second_pass_lines [OF nf]
  show "ps_domains (parseLines (joinWith [CHR 0x0A] (ps_rewrittenLines (parseLines c))))
           = ps_domains (parseLines c)"
    using sl by (simp add: parseLines_domains parseLines_rewritten sp)
  show "ps_rewrittenLines (parseLines (joinWith [CHR 0x0A] (ps_rewrittenLines (parseLines c))))
           = ps_rewrittenLines (parseLines c)"
    using sl by (simp add: parseLines_rewritten sp)
qed

text \<open>
  \<^bold>\<open>C8 (as amended).\<close> Take a descriptor file in which every domain the first parse
  collects is in normal form (sanitising it again changes nothing and it does not begin
  with \<open>#\<close> or \<open>//\<close>) and in which no line the first parse writes, other than the last,
  ends with a carriage return. Parsing the file, and then parsing what the first parse left
  on disk, yields the same domain list and leaves the file system as the first parse left
  it: no second rewrite.
\<close>

theorem parse_twice_idempotent_on_normal_forms:
  assumes "files fs filePath = Some contents"
    and "\<forall>d \<in> set (ps_domains (parseLines contents)). normalForm d"
    and "\<forall>l \<in> set (butlast (ps_rewrittenLines (parseLines contents))). \<not> endsWithCR l"
    and "parseStaticsAndProxiesDomains fs filePath filename filetype = (domains1, fs1, notes1)"
    and "parseStaticsAndProxiesDomains fs1 filePath filename filetype = (domains2, fs2, notes2)"
  shows "domains2 = domains1 \<and> fs2 = fs1 \<and> Normalized filetype filename \<notin> set notes2"
proof -
  let ?st = "parseLines contents"
  let ?u = "joinWith [CHR 0x0A] (ps_rewrittenLines ?st)"
  show ?thesis
  proof (cases "ps_changed ?st \<and> ?u \<noteq> contents \<and> writable fs filePath")
    case True
    have fs1: "fs1 = fs\<lparr>files := (files fs)(filePath \<mapsto> ?u)\<rparr>"
      and d1: "domains1 = (if ps_domains ?st \<noteq> [] then ps_domains ?st else filenameFallback filename)"
      using assms(1,4) True
      by (auto simp: parseStaticsAndProxiesDomains_def Let_def split: if_splits)
    have f1: "files fs1 filePath = Some ?u" unfolding fs1 by simp
    have dd: "ps_domains (parseLines ?u) = ps_domains ?st"
      and rr: "ps_rewrittenLines (parseLines ?u) = ps_rewrittenLines ?st"
      using second_pass [OF assms(2,3)] by simp_all
    have "parseStaticsAndProxiesDomains fs1 filePath filename filetype
            = (if ps_domains ?st \<noteq> [] then ps_domains ?st else filenameFallback filename, fs1, [])"
      using f1 by (simp add: parseStaticsAndProxiesDomains_def Let_def dd rr)
    with assms(5) d1 show ?thesis by simp
  next
    case False
    have fs1: "fs1 = fs"
      using assms(1,4) False
      by (auto simp: parseStaticsAndProxiesDomains_def Let_def split: if_splits)
    then have same: "domains2 = domains1" "fs2 = fs1" "notes2 = notes1"
      using assms(4,5) by simp_all
    have "Normalized filetype filename \<notin> set notes1"
      using assms(1,4) False
      by (auto simp: parseStaticsAndProxiesDomains_def Let_def split: if_splits)
    with same show ?thesis by simp
  qed
qed

theorem parse_twice_idempotent_on_normal_forms_witness:
  "fst (parseStaticsAndProxiesDomains
          (fst (snd (parseStaticsAndProxiesDomains
             \<lparr>files = [''/srv/site/site.static.hts'' \<mapsto>
                        ''http://example.com/'' @ [CHR 0x0A] @ ''www.example.com''],
              writable = (\<lambda>p. True)\<rparr>
             ''/srv/site/site.static.hts'' ''site.static.hts'' ''static'')))
          ''/srv/site/site.static.hts'' ''site.static.hts'' ''static'')
     = [''example.com'', ''www.example.com'']
   \<and> fst (snd (parseStaticsAndProxiesDomains
          (fst (snd (parseStaticsAndProxiesDomains
             \<lparr>files = [''/srv/site/site.static.hts'' \<mapsto>
                        ''http://example.com/'' @ [CHR 0x0A] @ ''www.example.com''],
              writable = (\<lambda>p. True)\<rparr>
             ''/srv/site/site.static.hts'' ''site.static.hts'' ''static'')))
          ''/srv/site/site.static.hts'' ''site.static.hts'' ''static''))
     = fst (snd (parseStaticsAndProxiesDomains
             \<lparr>files = [''/srv/site/site.static.hts'' \<mapsto>
                        ''http://example.com/'' @ [CHR 0x0A] @ ''www.example.com''],
              writable = (\<lambda>p. True)\<rparr>
             ''/srv/site/site.static.hts'' ''site.static.hts'' ''static''))"
proof -
  let ?c = "''http://example.com/'' @ [CHR 0x0A] @ ''www.example.com''"
  let ?p = "''/srv/site/site.static.hts''"
  let ?fs = "\<lparr>files = [?p \<mapsto> ?c], writable = (\<lambda>p. True)\<rparr>"
  let ?r1 = "parseStaticsAndProxiesDomains ?fs ?p ''site.static.hts'' ''static''"
  let ?r2 = "parseStaticsAndProxiesDomains (fst (snd ?r1)) ?p ''site.static.hts'' ''static''"
  have f: "files ?fs ?p = Some ?c" by simp
  have n: "\<forall>d \<in> set (ps_domains (parseLines ?c)). normalForm d" by code_simp
  have c: "\<forall>l \<in> set (butlast (ps_rewrittenLines (parseLines ?c))). \<not> endsWithCR l" by code_simp
  have r1: "?r1 = (fst ?r1, fst (snd ?r1), snd (snd ?r1))" by simp
  have r2: "?r2 = (fst ?r2, fst (snd ?r2), snd (snd ?r2))" by simp
  have d1: "fst ?r1 = [''example.com'', ''www.example.com'']" by code_simp
  from parse_twice_idempotent_on_normal_forms [OF f n c r1 r2] d1
  show ?thesis by simp
qed

text \<open>
  The claim C8 as first stated covers every descriptor file. A line with a doubled scheme
  shows otherwise: the first parse strips one \<open>http://\<close>, yields the domain
  \<open>http://a.com\<close> and rewrites the file; the second parse yields \<open>a.com\<close> and rewrites
  the file again.
\<close>

theorem doubled_scheme_needs_two_passes:
  "fst (parseStaticsAndProxiesDomains
          \<lparr>files = [''/srv/a/a.static.hts'' \<mapsto> ''http://http://a.com''],
           writable = (\<lambda>p. True)\<rparr>
          ''/srv/a/a.static.hts'' ''a.static.hts'' ''static'')
     = [''http://a.com'']
   \<and> files (fst (snd (parseStaticsAndProxiesDomains
          \<lparr>files = [''/srv/a/a.static.hts'' \<mapsto> ''http://http://a.com''],
           writable = (\<lambda>p. True)\<rparr>
          ''/srv/a/a.static.hts'' ''a.static.hts'' ''static''))) ''/srv/a/a.static.hts''
     = Some ''http://a.com''
   \<and> fst (parseStaticsAndProxiesDomains
          (fst (snd (parseStaticsAndProxiesDomains
             \<lparr>files = [''/srv/a/a.static.hts'' \<mapsto> ''http://http://a.com''],
              writable = (\<lambda>p. True)\<rparr>
             ''/srv/a/a.static.hts'' ''a.static.hts'' ''static'')))
          ''/srv/a/a.static.hts'' ''a.static.hts'' ''static'')
     = [''a.com'']
   \<and> snd (snd (parseStaticsAndProxiesDomains
          (fst (snd (parseStaticsAndProxiesDomains
             \<lparr>files = [''/srv/a/a.static.hts'' \<mapsto> ''http://http://a.com''],
              writable = (\<lambda>p. True)\<rparr>
             ''/srv/a/a.static.hts'' ''a.static.hts'' ''static'')))
          ''/srv/a/a.static.hts'' ''a.static.hts'' ''static''))
     = [Normalized ''static'' ''a.static.hts'']"
  by code_simp

text \<open>
  \<^bold>\<open>C10.\<close> The claim is that a rewrite leaves comment lines unchanged. The parser cuts
  every line at its first space before it looks for a comment, and writes the cut line
  back: in a file with the comment \<open># my site\<close> and a domain that needs normalising,
  the rewritten file holds \<open>#\<close> in place of the comment.
\<close>

theorem comment_truncated_at_first_space:
  "fst (parseStaticsAndProxiesDomains
      \<lparr>files = [''/srv/site/site.static.hts'' \<mapsto>
                 ''# my site'' @ [CHR 0x0A] @ ''http://example.com''],
       writable = (\<lambda>p. True)\<rparr>
      ''/srv/site/site.static.hts'' ''site.static.hts'' ''static'') = [''example.com'']
   \<and> files (fst (snd (parseStaticsAndProxiesDomains
      \<lparr>files = [''/srv/site/site.static.hts'' \<mapsto>
                 ''# my site'' @ [CHR 0x0A] @ ''http://example.com''],
       writable = (\<lambda>p. True)\<rparr>
      ''/srv/site/site.static.hts'' ''site.static.hts'' ''static''))) ''/srv/site/site.static.hts''
     = Some (''#'' @ [CHR 0x0A] @ ''example.com'')
   \<and> snd (snd (parseStaticsAndProxiesDomains
      \<lparr>files = [''/srv/site/site.static.hts'' \<mapsto>
                 ''# my site'' @ [CHR 0x0A] @ ''http://example.com''],
       writable = (\<lambda>p. True)\<rparr>
      ''/srv/site/site.static.hts'' ''site.static.hts'' ''static''))
     = [Normalized ''static'' ''site.static.hts'']"
  by code_simp

subsection \<open>Proxy targets\<close>

lemma splitOn_nonempty [simp]: "splitOn c s \<noteq> []"
  by (induction s) (auto split: list.splits)

lemma splitOn_none: "c \<notin> set s \<Longrightarrow> splitOn c s = [s]"
  by (induction s) auto

lemma splitOn_append: "splitOn c (a @ c # b) = splitOn c a @ splitOn c b"
proof (induction a)
  case Nil then show ?case by simp
next
  case (Cons x a)
  obtain l ls where sp: "splitOn c a = l # ls" by (cases "splitOn c a") auto
  show ?case using Cons.IH sp by (auto split: list.splits)
qed






section \<open>The configuration file: proofs\<close>

subsection \<open>White space at the ends\<close>

lemma ws_space [simp]: "isWhiteSpace CHR '' ''" by code_simp
lemma ws_slash [simp]: "\<not> isWhiteSpace CHR ''/''" by code_simp
lemma ws_colon [simp]: "\<not> isWhiteSpace CHR '':''" by code_simp
lemma ws_dash [simp]: "\<not> isWhiteSpace CHR ''-''" by code_simp
lemma ws_close [simp]: "\<not> isWhiteSpace CHR '')''" by code_simp
lemma ws_d [simp]: "\<not> isWhiteSpace CHR ''d''" by code_simp
lemma ws_t [simp]: "\<not> isWhiteSpace CHR ''t''" by code_simp
lemma ws_CR [simp]: "isWhiteSpace CHR 0x0D" by code_simp

lemma trim_fixed_ends:
  assumes "trim s = s" and "s \<noteq> []"
  shows "\<not> isWhiteSpace (hd s)" and "\<not> isWhiteSpace (last s)"
proof -
  let ?a = "dropWhile isWhiteSpace s"
  have l1: "length (rev (dropWhile isWhiteSpace (rev ?a))) \<le> length ?a"
    using length_dropWhile_le [of isWhiteSpace "rev ?a"] by simp
  have l2: "length ?a \<le> length s" by (rule length_dropWhile_le)
  have "length (trim s) = length s" using assms(1) by simp
  then have la: "length ?a = length s" using l1 l2 unfolding trim_def by linarith
  have "takeWhile isWhiteSpace s @ ?a = s" by simp
  then have "length (takeWhile isWhiteSpace s) + length ?a = length s"
    by (metis length_append)
  then have "takeWhile isWhiteSpace s = []" using la by simp
  then have a: "?a = s" by (metis append_Nil takeWhile_dropWhile_id)
  then show "\<not> isWhiteSpace (hd s)" using assms(2) by (simp add: dropWhile_eq_self_iff)
  have "rev (dropWhile isWhiteSpace (rev s)) = s" using assms(1) a unfolding trim_def by simp
  then have "dropWhile isWhiteSpace (rev s) = rev s" by (metis rev_rev_ident)
  then have "\<not> isWhiteSpace (hd (rev s))" using assms(2) by (simp add: dropWhile_eq_self_iff)
  then show "\<not> isWhiteSpace (last s)" by (simp add: hd_rev)
qed

lemma trim_wrap:
  assumes "\<forall>c \<in> set pre. isWhiteSpace c" and "s \<noteq> []"
    and "\<not> isWhiteSpace (hd s)" and "\<not> isWhiteSpace (last s)"
  shows "trim (pre @ s) = s"
proof -
  have "dropWhile isWhiteSpace (pre @ s) = dropWhile isWhiteSpace s"
    using assms(1) by (simp add: dropWhile_append2)
  also have "\<dots> = s" using assms(2,3) by (simp add: dropWhile_eq_self_iff)
  finally have a: "dropWhile isWhiteSpace (pre @ s) = s" .
  have "dropWhile isWhiteSpace (rev s) = rev s"
    using assms(2,4) by (simp add: dropWhile_eq_self_iff hd_rev)
  then show ?thesis unfolding trim_def a by simp
qed

lemma trim_keeps_head:
  assumes "\<forall>c \<in> set pre. isWhiteSpace c" and "a \<noteq> []"
    and "\<not> isWhiteSpace (hd a)" and "\<not> isWhiteSpace (last a)"
  shows "\<exists>y. trim (pre @ a @ x) = a @ y"
proof -
  have "dropWhile isWhiteSpace (pre @ a @ x) = dropWhile isWhiteSpace (a @ x)"
    using assms(1) by (simp add: dropWhile_append2)
  also have "\<dots> = a @ x" using assms(2,3) by (simp add: dropWhile_eq_self_iff)
  finally have h: "dropWhile isWhiteSpace (pre @ a @ x) = a @ x" .
  have ra: "dropWhile isWhiteSpace (rev a) = rev a"
    using assms(2,4) by (simp add: dropWhile_eq_self_iff hd_rev)
  have "dropWhile isWhiteSpace (rev x @ rev a)
          = (if \<forall>c \<in> set (rev x). isWhiteSpace c then rev a
             else dropWhile isWhiteSpace (rev x) @ rev a)"
    using ra by (simp add: dropWhile_append)
  then have "rev (dropWhile isWhiteSpace (rev (a @ x)))
          = (if \<forall>c \<in> set (rev x). isWhiteSpace c then a
             else a @ rev (dropWhile isWhiteSpace (rev x)))"
    by simp
  then have "\<exists>y. rev (dropWhile isWhiteSpace (rev (a @ x))) = a @ y"
    by (metis append_Nil2)
  then show ?thesis unfolding trim_def h .
qed

subsection \<open>Splitting at a character and joining again\<close>

lemma joinWith_Cons_Cons: "joinWith sep ((x # l) # ls) = x # joinWith sep (l # ls)"
  by (cases ls) simp_all

lemma joinWith_splitOn: "joinWith [c] (splitOn c s) = s"
proof (induction s)
  case Nil then show ?case by simp
next
  case (Cons x xs)
  obtain l ls where sp: "splitOn c xs = l # ls" by (cases "splitOn c xs") auto
  show ?case
  proof (cases "x = c")
    case True
    then show ?thesis using Cons.IH sp by simp
  next
    case False
    then show ?thesis using Cons.IH sp by (simp add: joinWith_Cons_Cons)
  qed
qed

lemma afterColon_key:
  assumes "CHR '':'' \<notin> set k"
  shows "afterColon (k @ '':'' @ rest) = trim rest"
proof -
  have "splitOn CHR '':'' (k @ CHR '':'' # rest) = [k] @ splitOn CHR '':'' rest"
    using assms by (simp add: splitOn_append splitOn_none)
  then show ?thesis by (simp add: afterColon_def joinWith_splitOn)
qed

subsection \<open>Removing the certificate annotation\<close>

lemma stripCert_no_paren:
  "CHR ''('' \<notin> set d \<Longrightarrow> stripCert (d @ r) = d @ stripCert r"
  by (induction d) (auto simp: certMatch_def)

lemma stripCert_present: "stripCert '' (cert: present)'' = '' ''" by code_simp
lemma stripCert_missing: "stripCert '' (cert: missing)'' = '' ''" by code_simp

subsection \<open>One line of the configuration file at a time\<close>

lemma tidy_ends:
  assumes "tidy s"
  shows "s \<noteq> []" and "\<not> isWhiteSpace (hd s)" and "\<not> isWhiteSpace (last s)"
  using assms trim_fixed_ends [of s] by (auto simp: tidy_def)

lemma trim_trailing_space:
  assumes "tidy d" shows "trim (d @ '' '') = d"
proof -
  note e = tidy_ends [OF assms]
  have "dropWhile isWhiteSpace (d @ '' '') = d @ '' ''"
    using e by (simp add: dropWhile_eq_self_iff)
  moreover have "dropWhile isWhiteSpace (rev d) = rev d"
    using e by (simp add: dropWhile_eq_self_iff hd_rev)
  ultimately show ?thesis by (simp add: trim_def)
qed

lemma configLine_id:
  assumes "tidy p" and "hd p = CHR ''/''"
  shows "configLine p (es, None)
           = Inr (es, Some \<lparr>e_id = p, e_type = None, e_target = None, e_dir = None, e_domains = []\<rparr>)"
proof -
  have t: "trim p = p" and ne: "p \<noteq> []" using assms(1) by (simp_all add: tidy_def)
  have "take (Suc 0) p = [hd p]" using ne by (cases p) simp_all
  then have ns: "\<not> startsWith p '' ''" using assms(2) by (simp add: startsWith_def)
  show ?thesis using t ne ns by (simp add: configLine_def flush_def)
qed

lemma configLine_type:
  assumes "ty = ''proxy'' \<or> ty = ''static'' \<or> ty = ''express''"
  shows "configLine (''  type: '' @ ty) (es, Some c) = Inr (es, Some (c\<lparr>e_type := Some ty\<rparr>))"
proof -
  have 1: "trim (''  type: '' @ ty) = ''type: '' @ ty"
    using assms by (elim disjE; simp; code_simp)
  have 2: "afterColon (''type: '' @ ty) = ty"
    using assms by (elim disjE; simp; code_simp)
  show ?thesis
    unfolding configLine_def 1 Let_def using 2 by (simp add: startsWith_def)
qed

lemma configLine_dir:
  "configLine (''  dir: '' @ x) (es, Some c)
     = Inr (es, Some (c\<lparr>e_dir := Some (afterColon (trim (''  dir: '' @ x)))\<rparr>))"
proof -
  have "\<exists>y. trim (''  '' @ ''dir:'' @ ('' '' @ x)) = ''dir:'' @ y"
    by (rule trim_keeps_head) simp_all
  then obtain y where y: "trim (''  dir: '' @ x) = ''dir:'' @ y" by auto
  show ?thesis
    unfolding configLine_def Let_def y [symmetric]
    unfolding y by (simp add: startsWith_def)
qed

lemma configLine_target:
  assumes "tidy t"
  shows "configLine (''  target: '' @ t) (es, Some c) = Inr (es, Some (c\<lparr>e_target := Some t\<rparr>))"
proof -
  note e = tidy_ends [OF assms]
  have "trim (''  '' @ (''target: '' @ t)) = ''target: '' @ t"
    using e by (intro trim_wrap) simp_all
  then have 1: "trim (''  target: '' @ t) = ''target: '' @ t" by simp
  have "afterColon (''target'' @ '':'' @ ('' '' @ t)) = trim ('' '' @ t)"
    by (rule afterColon_key) simp
  moreover have "trim ('' '' @ t) = t" using e by (intro trim_wrap) simp_all
  ultimately have 2: "afterColon (''target: '' @ t) = t" by simp
  show ?thesis
    unfolding configLine_def 1 Let_def using 2 by (simp add: startsWith_def)
qed

lemma configLine_domains_header: "configLine ''  domains:'' st = Inr st"
proof -
  have 1: "trim ''  domains:'' = ''domains:''" by code_simp
  show ?thesis unfolding configLine_def 1 Let_def by (simp add: startsWith_def)
qed

lemma configLine_none: "configLine ''    - (none) (cert: n/a)'' st = Inr st"
proof -
  have 1: "trim ''    - (none) (cert: n/a)'' = ''- (none) (cert: n/a)''" by code_simp
  have 2: "trim (stripCert (trim (drop 1 ''- (none) (cert: n/a)''))) = ''(none)''" by code_simp
  show ?thesis unfolding configLine_def 1 Let_def using 2 by (simp add: startsWith_def)
qed

lemma configLine_domain:
  assumes "tidy d" and "CHR ''('' \<notin> set d"
  shows "configLine (domainLine certEntries d) (es, Some c)
           = Inr (es, Some (c\<lparr>e_domains := e_domains c @ [d]\<rparr>))"
proof -
  note e = tidy_ends [OF assms(1)]
  define s where "s = (if hasCertificateForDomain d certEntries then ''present'' else ''missing'')"
  define tail where "tail = '' (cert: '' @ s @ '')''"
  have sc: "stripCert tail = '' ''"
  proof (cases "hasCertificateForDomain d certEntries")
    case True
    then have "tail = '' (cert: present)''" by (simp add: tail_def s_def)
    then show ?thesis by (simp only: stripCert_present)
  next
    case False
    then have "tail = '' (cert: missing)''" by (simp add: tail_def s_def)
    then show ?thesis by (simp only: stripCert_missing)
  qed
  have tl: "tail \<noteq> []" "last tail = CHR '')''" unfolding tail_def by simp_all
  have line: "domainLine certEntries d = ''    '' @ (''- '' @ d @ tail)"
    unfolding domainLine_def Let_def tail_def s_def by simp
  have 1: "trim (domainLine certEntries d) = ''- '' @ d @ tail"
    unfolding line using tl by (intro trim_wrap) simp_all
  have "trim ('' '' @ (d @ tail)) = d @ tail"
    using e tl by (intro trim_wrap) simp_all
  then have 2: "trim (drop 1 (''- '' @ d @ tail)) = d @ tail" by simp
  have 3: "stripCert (d @ tail) = d @ '' ''"
    using assms(2) sc by (simp add: stripCert_no_paren)
  have 4: "trim (d @ '' '') = d" using assms(1) by (rule trim_trailing_space)
  have 5: "d \<noteq> ''(none)''" using assms(2) by auto
  have 6: "trim (''    '' @ (''- '' @ d @ tail)) \<noteq> []" using 1 line by simp
  show ?thesis
    unfolding configLine_def Let_def 1 2 3 4
    using e(1) 5 by (simp add: startsWith_def line)
qed

lemma configLine_blank:
  assumes "e_type c = Some ty" and "ty \<noteq> []" and "e_id c \<noteq> []"
  shows "configLine [] (es, Some c) = Inr (es @ [c], None)"
proof -
  have "trim [] = []" by (simp add: trim_def)
  then show ?thesis using assms by (simp add: configLine_def flush_def)
qed

subsection \<open>One descriptor's lines, then all of them\<close>

lemma configLoop_append:
  "configLoop (a @ b) st = (case configLoop a st of Inl e \<Rightarrow> Inl e | Inr st' \<Rightarrow> configLoop b st')"
  by (induction a arbitrary: st) (auto split: sum.splits)

lemma configLoop_domains:
  "list_all (\<lambda>x. tidy x \<and> CHR ''('' \<notin> set x) ds \<Longrightarrow>
   configLoop (map (domainLine certEntries) ds) (es, Some c)
     = Inr (es, Some (c\<lparr>e_domains := e_domains c @ ds\<rparr>))"
proof (induction ds arbitrary: c)
  case Nil then show ?case by simp
next
  case (Cons d ds)
  have 1: "configLine (domainLine certEntries d) (es, Some c)
             = Inr (es, Some (c\<lparr>e_domains := e_domains c @ [d]\<rparr>))"
    using Cons.prems by (intro configLine_domain) simp_all
  have 2: "configLoop (map (domainLine certEntries) ds) (es, Some (c\<lparr>e_domains := e_domains c @ [d]\<rparr>))
             = Inr (es, Some (c\<lparr>e_domains := e_domains c @ [d]\<rparr>\<lparr>e_domains :=
                      e_domains (c\<lparr>e_domains := e_domains c @ [d]\<rparr>) @ ds\<rparr>))"
    using Cons.prems by (intro Cons.IH) simp
  show ?case using 1 2 by simp
qed

lemma configLoop_domain_part:
  assumes "list_all (\<lambda>x. tidy x \<and> CHR ''('' \<notin> set x) ds"
  shows "configLoop (if ds = [] then [''    - (none) (cert: n/a)'']
                     else map (domainLine certEntries) ds) (es, Some c)
           = Inr (es, Some (c\<lparr>e_domains := e_domains c @ ds\<rparr>))"
proof (cases "ds = []")
  case True
  then show ?thesis by (simp add: configLine_none)
next
  case False
  then show ?thesis using configLoop_domains [OF assms] by simp
qed

lemma configLoop_target_part:
  assumes "case tg of None \<Rightarrow> True | Some t \<Rightarrow> tidy t"
  shows "configLoop (case tg of
                       Some target \<Rightarrow> if ty = ''proxy'' \<and> target \<noteq> [] then [''  target: '' @ target]
                                       else []
                     | None \<Rightarrow> []) (es, Some c)
           = Inr (es, Some (if ty = ''proxy'' \<and> tg \<noteq> None then c\<lparr>e_target := tg\<rparr> else c))"
proof (cases tg)
  case None
  then show ?thesis by simp
next
  case (Some t)
  then have t: "tidy t" using assms by simp
  then have ne: "t \<noteq> []" by (simp add: tidy_def)
  show ?thesis using Some ne configLine_target [OF t] by simp
qed

lemma configLoop_entry:
  assumes "wellFormed d" and "ty = ''proxy'' \<or> ty = ''static'' \<or> ty = ''express''"
  shows "configLoop (pushEntry env certEntries d ty) (es, None) = Inr (es @ [entryOf ty d], None)"
proof -
  let ?p = "d_absolutePath d"
  have p: "tidy ?p" "hd ?p = CHR ''/''"
    and ds: "list_all (\<lambda>x. tidy x \<and> CHR ''('' \<notin> set x) (d_domains d)"
    and tg: "case d_target d of None \<Rightarrow> True | Some t \<Rightarrow> tidy t"
    using assms(1) by (simp_all add: wellFormed_def)
  have ne: "?p \<noteq> []" using p(1) by (simp add: tidy_def)
  have tyne: "ty \<noteq> []" using assms(2) by auto
  let ?c0 = "\<lparr>e_id = ?p, e_type = None, e_target = None, e_dir = None, e_domains = []\<rparr>"
  let ?c1 = "?c0\<lparr>e_type := Some ty\<rparr>"
  let ?c2 = "?c1\<lparr>e_dir := Some (afterColon (trim (''  dir: '' @ dirname ?p)))\<rparr>"
  let ?c3 = "if ty = ''proxy'' \<and> d_target d \<noteq> None then ?c2\<lparr>e_target := d_target d\<rparr> else ?c2"
  let ?c4 = "?c3\<lparr>e_domains := e_domains ?c3 @ d_domains d\<rparr>"
  let ?tpart = "case d_target d of
                  Some target \<Rightarrow> if ty = ''proxy'' \<and> target \<noteq> [] then [''  target: '' @ target]
                                  else []
                | None \<Rightarrow> []"
  let ?dpart = "if d_domains d = [] then [''    - (none) (cert: n/a)'']
                else map (domainLine certEntries) (d_domains d)"
  have lines: "pushEntry env certEntries d ty
      = [?p, ''  type: '' @ ty, ''  dir: '' @ dirname ?p] @ (?tpart @ ([''  domains:''] @ (?dpart @ [[]])))"
    using ne by (simp add: pushEntry_def Let_def)
  have s1: "configLoop [?p, ''  type: '' @ ty, ''  dir: '' @ dirname ?p] (es, None)
              = Inr (es, Some ?c2)"
    using configLine_id [OF p, of es] configLine_type [OF assms(2), of es ?c0]
      configLine_dir [of "dirname ?p" es ?c1]
    by simp
  have s2: "configLoop ?tpart (es, Some ?c2) = Inr (es, Some ?c3)"
    by (rule configLoop_target_part [OF tg])
  have s3: "configLoop [''  domains:''] (es, Some ?c3) = Inr (es, Some ?c3)"
    by (simp add: configLine_domains_header)
  have s4: "configLoop ?dpart (es, Some ?c3) = Inr (es, Some ?c4)"
    by (rule configLoop_domain_part [OF ds])
  have c4: "?c4 = entryOf ty d" by (cases "d_target d") (simp_all add: entryOf_def)
  have "e_type ?c4 = Some ty" "e_id ?c4 \<noteq> []" unfolding c4 using ne by (simp_all add: entryOf_def)
  then have s5: "configLoop [''''] (es, Some ?c4) = Inr (es @ [?c4], None)"
    using tyne configLine_blank [of ?c4 ty es] by simp
  have "configLoop (pushEntry env certEntries d ty) (es, None) = Inr (es @ [?c4], None)"
    unfolding lines
    by (simp only: configLoop_append s1 s2 s3 s4 s5 sum.case)
  then show ?thesis unfolding c4 .
qed

lemma configLoop_entries:
  assumes "list_all wellFormed ds" and "ty = ''proxy'' \<or> ty = ''static'' \<or> ty = ''express''"
  shows "configLoop (concat (map (\<lambda>d. pushEntry env certEntries d ty) ds)) (es, None)
           = Inr (es @ map (entryOf ty) ds, None)"
  using assms(1)
proof (induction ds arbitrary: es)
  case Nil then show ?case by simp
next
  case (Cons d ds)
  have 1: "configLoop (pushEntry env certEntries d ty) (es, None) = Inr (es @ [entryOf ty d], None)"
    using Cons.prems assms(2) by (intro configLoop_entry) simp_all
  have 2: "configLoop (concat (map (\<lambda>d. pushEntry env certEntries d ty) ds)) (es @ [entryOf ty d], None)
             = Inr ((es @ [entryOf ty d]) @ map (entryOf ty) ds, None)"
    using Cons.prems by (intro Cons.IH) simp
  show ?case using 1 2 by (simp add: configLoop_append)
qed

lemma configLoop_configLines:
  assumes "list_all wellFormed serverDescriptors" and "list_all wellFormed staticDescriptors"
    and "list_all wellFormed proxyDescriptors"
  shows "configLoop (configLines env serverDescriptors staticDescriptors proxyDescriptors certEntries)
           ([], None)
         = Inr (map (entryOf ''proxy'') proxyDescriptors
                @ map (entryOf ''static'') staticDescriptors
                @ map (entryOf ''express'') serverDescriptors, None)"
proof -
  note p = configLoop_entries [OF assms(3), of "''proxy''" env certEntries]
  note s = configLoop_entries [OF assms(2), of "''static''" env certEntries]
  note e = configLoop_entries [OF assms(1), of "''express''" env certEntries]
  show ?thesis
    unfolding configLines_def
    by (simp add: configLoop_append p s e)
qed

subsection \<open>From entries to items\<close>

lemma mapEntries_append: "mapEntries env ty (a @ b) = mapEntries env ty a @ mapEntries env ty b"
  by (simp add: mapEntries_def)

lemma mapEntries_entryOf:
  assumes "list_all wellFormed ds"
  shows "mapEntries env ty (map (entryOf ty') ds) = (if ty = ty' then map (itemOf ty) ds else [])"
  using assms
proof (induction ds)
  case Nil then show ?case by (simp add: mapEntries_def)
next
  case (Cons d ds)
  have wf: "wellFormed d" using Cons.prems by simp
  then have ne: "d_absolutePath d \<noteq> []" and abs: "isAbsolute (d_absolutePath d)"
    by (simp_all add: wellFormed_def tidy_def isAbsolute_def)
  have one: "mapEntries env ty [entryOf ty' d] = (if ty = ty' then [itemOf ty d] else [])"
  proof (cases "ty = ty'")
    case True
    have "e_type (entryOf ty' d) = Some ty" "e_id (entryOf ty' d) = d_absolutePath d"
      "e_domains (entryOf ty' d) = d_domains d"
      "e_target (entryOf ty' d) = (if ty = ''proxy'' then d_target d else None)"
      using True by (simp_all add: entryOf_def)
    then show ?thesis using True ne abs by (simp add: mapEntries_def itemOf_def Let_def)
  next
    case False
    have t: "e_type (entryOf ty' d) = Some ty'" by (simp add: entryOf_def)
    have "e_type (entryOf ty' d) \<noteq> Some ty" unfolding t using False by blast
    then have f: "filter (\<lambda>e. e_type e = Some ty \<and> e_id e \<noteq> []) [entryOf ty' d] = []"
      by simp
    have r: "(if ty = ty' then [itemOf ty d] else []) = []" using False by (rule if_not_P)
    show ?thesis unfolding mapEntries_def f r by (rule list.map(1))
  qed
  have "mapEntries env ty (map (entryOf ty') (d # ds))
          = mapEntries env ty [entryOf ty' d] @ mapEntries env ty (map (entryOf ty') ds)"
    by (simp add: mapEntries_def)
  then show ?case using one Cons.IH Cons.prems by simp
qed

subsection \<open>The written lines survive joining and splitting\<close>

lemma plainChars_append [simp]: "plainChars (a @ b) = (plainChars a \<and> plainChars b)"
  by (simp add: plainChars_def)

lemma plainChars_Cons [simp]: "plainChars (c # l) = (\<not> isLineTerminator c \<and> plainChars l)"
  by (simp add: plainChars_def)

lemma plainChars_Nil [simp]: "plainChars []"
  by (simp add: plainChars_def)

lemma plainChars_line: "plainChars l \<Longrightarrow> CHR 0x0A \<notin> set l \<and> \<not> endsWithCR l"
proof -
  assume a: "plainChars l"
  then have n: "\<forall>c \<in> set l. c \<noteq> CHR 0x0A \<and> c \<noteq> CHR 0x0D"
    by (simp add: plainChars_def list_all_iff isLineTerminator_def)
  then have 1: "CHR 0x0A \<notin> set l" by blast
  have 2: "\<not> endsWithCR l"
  proof
    assume "endsWithCR l"
    then have ne: "l \<noteq> []" and la: "last l = CHR 0x0D" by (simp_all add: endsWithCR_def)
    from ne have "last l \<in> set l" by (rule last_in_set)
    with la n show False by simp
  qed
  from 1 2 show ?thesis by (rule conjI)
qed

lemma tidy_plainChars: "tidy s \<Longrightarrow> plainChars s"
  by (simp add: tidy_def plainChars_def)

lemma set_dirname: "set (dirname p) \<subseteq> set p \<union> set ''/.''"
proof (cases "p = []")
  case True
  then show ?thesis by (simp add: dirname_def)
next
  case False
  define r where "r = dropWhile (\<lambda>c. c \<noteq> CHR ''/'') (dropWhile (\<lambda>c. c = CHR ''/'') (rev (tl p)))"
  have d: "dirname p = (if r = [] then (if hd p = CHR ''/'' then ''/'' else ''.'')
                        else if hd p = CHR ''/'' \<and> length r = 1 then ''//''
                        else take (length r) p)"
    using False unfolding dirname_def r_def Let_def by simp
  have t: "set (take (length r) p) \<subseteq> set p" by (rule set_take_subset)
  show ?thesis unfolding d using t by auto
qed

lemma plainChars_dirname: "plainChars p \<Longrightarrow> plainChars (dirname p)"
proof -
  assume p: "plainChars p"
  have "\<forall>c \<in> set (dirname p). \<not> isLineTerminator c"
  proof
    fix c assume "c \<in> set (dirname p)"
    then have "c \<in> set p \<or> c = CHR ''/'' \<or> c = CHR ''.''" using set_dirname [of p] by auto
    then show "\<not> isLineTerminator c"
      using p by (auto simp: plainChars_def list_all_iff isLineTerminator_def)
  qed
  then show ?thesis by (simp add: plainChars_def list_all_iff)
qed

lemma plainChars_domainLine: "plainChars d \<Longrightarrow> plainChars (domainLine certEntries d)"
  by (simp add: domainLine_def Let_def isLineTerminator_def)

lemma plainChars_pushEntry:
  assumes "wellFormed d" and "ty = ''proxy'' \<or> ty = ''static'' \<or> ty = ''express''"
  shows "\<forall>l \<in> set (pushEntry env certEntries d ty). plainChars l"
proof -
  let ?p = "d_absolutePath d"
  have p: "plainChars ?p" and ne: "?p \<noteq> []"
    using assms(1) by (simp_all add: wellFormed_def tidy_plainChars) (simp add: tidy_def)
  have ds: "\<forall>x \<in> set (d_domains d). plainChars x"
    using assms(1) by (auto simp: wellFormed_def list_all_iff tidy_plainChars)
  have tg: "\<And>t. d_target d = Some t \<Longrightarrow> plainChars t"
    using assms(1) by (auto simp: wellFormed_def tidy_plainChars)
  have ty: "plainChars ty"
    using assms(2) by (auto simp: isLineTerminator_def)
  let ?tpart = "case d_target d of
                  Some target \<Rightarrow> if ty = ''proxy'' \<and> target \<noteq> [] then [''  target: '' @ target]
                                  else []
                | None \<Rightarrow> []"
  let ?dpart = "if d_domains d = [] then [''    - (none) (cert: n/a)'']
                else map (domainLine certEntries) (d_domains d)"
  have lines: "pushEntry env certEntries d ty
      = [?p, ''  type: '' @ ty, ''  dir: '' @ dirname ?p] @ (?tpart @ ([''  domains:''] @ (?dpart @ [[]])))"
    using ne by (simp add: pushEntry_def Let_def)
  have 1: "\<forall>l \<in> set [?p, ''  type: '' @ ty, ''  dir: '' @ dirname ?p]. plainChars l"
    using p ty plainChars_dirname [OF p] by (simp add: isLineTerminator_def)
  have 2: "\<forall>l \<in> set ?tpart. plainChars l"
    using tg by (cases "d_target d") (simp_all add: isLineTerminator_def)
  have 3: "\<forall>l \<in> set [''  domains:'']. plainChars l" by (simp add: isLineTerminator_def)
  have 4: "\<forall>l \<in> set ?dpart. plainChars l"
    using ds by (simp add: plainChars_domainLine isLineTerminator_def)
  have 5: "\<forall>l \<in> set [[]]. plainChars l" by simp
  show ?thesis
    unfolding lines set_append using 1 2 3 4 5 by blast
qed

lemma plainChars_configLines:
  assumes "list_all wellFormed serverDescriptors" and "list_all wellFormed staticDescriptors"
    and "list_all wellFormed proxyDescriptors"
  shows "\<forall>l \<in> set (configLines env serverDescriptors staticDescriptors proxyDescriptors certEntries).
           plainChars l"
proof -
  have 1: "\<forall>d \<in> set proxyDescriptors. \<forall>l \<in> set (pushEntry env certEntries d ''proxy''). plainChars l"
  proof
    fix d assume "d \<in> set proxyDescriptors"
    then have "wellFormed d" using assms(3) by (simp add: list_all_iff)
    then show "\<forall>l \<in> set (pushEntry env certEntries d ''proxy''). plainChars l"
      by (rule plainChars_pushEntry) simp
  qed
  have 2: "\<forall>d \<in> set staticDescriptors. \<forall>l \<in> set (pushEntry env certEntries d ''static''). plainChars l"
  proof
    fix d assume "d \<in> set staticDescriptors"
    then have "wellFormed d" using assms(2) by (simp add: list_all_iff)
    then show "\<forall>l \<in> set (pushEntry env certEntries d ''static''). plainChars l"
      by (rule plainChars_pushEntry) simp
  qed
  have 3: "\<forall>d \<in> set serverDescriptors. \<forall>l \<in> set (pushEntry env certEntries d ''express''). plainChars l"
  proof
    fix d assume "d \<in> set serverDescriptors"
    then have "wellFormed d" using assms(1) by (simp add: list_all_iff)
    then show "\<forall>l \<in> set (pushEntry env certEntries d ''express''). plainChars l"
      by (rule plainChars_pushEntry) simp
  qed
  show ?thesis unfolding configLines_def using 1 2 3 by auto
qed

lemma splitLines_configLines:
  assumes "list_all wellFormed serverDescriptors" and "list_all wellFormed staticDescriptors"
    and "list_all wellFormed proxyDescriptors"
    and "configLines env serverDescriptors staticDescriptors proxyDescriptors certEntries \<noteq> []"
  shows "splitLines (joinWith [CHR 0x0A]
           (configLines env serverDescriptors staticDescriptors proxyDescriptors certEntries))
         = configLines env serverDescriptors staticDescriptors proxyDescriptors certEntries"
proof -
  let ?ls = "configLines env serverDescriptors staticDescriptors proxyDescriptors certEntries"
  have pl: "\<forall>l \<in> set ?ls. plainChars l" using assms(1-3) by (rule plainChars_configLines)
  have 1: "\<forall>l \<in> set ?ls. CHR 0x0A \<notin> set l" using pl plainChars_line by blast
  have 2: "\<forall>l \<in> set (butlast ?ls). \<not> endsWithCR l"
    using pl plainChars_line in_set_butlastD by metis
  show ?thesis using assms(4) 1 2 by (rule splitLines_joinWith)
qed

lemma pushEntry_nonempty: "pushEntry env certEntries d ty \<noteq> []"
  by (simp add: pushEntry_def Let_def)

lemma configLines_empty:
  "configLines env serverDescriptors staticDescriptors proxyDescriptors certEntries = [] \<longleftrightarrow>
     serverDescriptors = [] \<and> staticDescriptors = [] \<and> proxyDescriptors = []"
  using pushEntry_nonempty by (auto simp: configLines_def)

subsection \<open>Reading back what was written\<close>

lemma configLoop_written:
  assumes "list_all wellFormed serverDescriptors" and "list_all wellFormed staticDescriptors"
    and "list_all wellFormed proxyDescriptors"
  shows "configLoop (splitLines (joinWith [CHR 0x0A]
           (configLines env serverDescriptors staticDescriptors proxyDescriptors certEntries)))
           ([], None)
         = Inr (map (entryOf ''proxy'') proxyDescriptors
                @ map (entryOf ''static'') staticDescriptors
                @ map (entryOf ''express'') serverDescriptors, None)"
proof (cases "configLines env serverDescriptors staticDescriptors proxyDescriptors certEntries = []")
  case True
  then have e: "serverDescriptors = []" "staticDescriptors = []" "proxyDescriptors = []"
    by (simp_all add: configLines_empty)
  have "trim [] = []" by (simp add: trim_def)
  then have "configLine [] ([], None) = Inr ([], None)" by (simp add: configLine_def flush_def)
  then show ?thesis unfolding e by (simp add: configLines_def)
next
  case False
  show ?thesis
    unfolding splitLines_configLines [OF assms False]
    using configLoop_configLines [OF assms] by simp
qed

lemma pushEntry_read_back:
  assumes "d_absolutePath d \<noteq> []"
  shows "pushEntry env certEntries (descriptorOf ty (itemOf ty d)) ty = pushEntry env certEntries d ty"
  using assms by (simp add: pushEntry_def descriptorOf_def itemOf_def Let_def split: option.splits)

lemma map_pushEntry_read_back:
  assumes "list_all wellFormed ds"
  shows "map (\<lambda>d. pushEntry env certEntries d ty) (map (descriptorOf ty \<circ> itemOf ty) ds)
           = map (\<lambda>d. pushEntry env certEntries d ty) ds"
  using assms
proof (induction ds)
  case Nil then show ?case by simp
next
  case (Cons d ds)
  then have "d_absolutePath d \<noteq> []" by (simp add: wellFormed_def tidy_def)
  then show ?case using Cons by (simp add: pushEntry_read_back)
qed

lemma configLines_read_back:
  assumes "list_all wellFormed serverDescriptors" and "list_all wellFormed staticDescriptors"
    and "list_all wellFormed proxyDescriptors"
  shows "configLines env (map (descriptorOf ''express'' \<circ> itemOf ''express'') serverDescriptors)
           (map (descriptorOf ''static'' \<circ> itemOf ''static'') staticDescriptors)
           (map (descriptorOf ''proxy'' \<circ> itemOf ''proxy'') proxyDescriptors) certEntries
         = configLines env serverDescriptors staticDescriptors proxyDescriptors certEntries"
  unfolding configLines_def
  by (simp only: map_pushEntry_read_back [OF assms(1)] map_pushEntry_read_back [OF assms(2)]
      map_pushEntry_read_back [OF assms(3)])

text \<open>
  \<^bold>\<open>C9 (as amended).\<close> Take descriptor sets whose absolute paths are absolute, whose
  paths, domains and proxy targets are non-empty, carry no white space at either end and
  contain no line break, and whose domains contain no opening parenthesis. Writing the
  configuration file from them and parsing it again yields, kind by kind and in order, the
  same absolute paths, the same domain lists and the same proxy targets; and writing the
  parsed sets once more leaves the file as it is.
\<close>

theorem config_write_then_parse:
  assumes "list_all wellFormed serverDescriptors" and "list_all wellFormed staticDescriptors"
    and "list_all wellFormed proxyDescriptors"
    and "writeConfigFile env serverDescriptors staticDescriptors proxyDescriptors certEntries fs
           = Inr (fs', ntc)"
  shows "parseConfigFile env fs'
           = Inr \<lparr>pc_servers = map (itemOf ''express'') serverDescriptors,
                  pc_statics = map (itemOf ''static'') staticDescriptors,
                  pc_proxies = map (itemOf ''proxy'') proxyDescriptors\<rparr>
         \<and> writeConfigFile env
               (map (descriptorOf ''express'' \<circ> itemOf ''express'') serverDescriptors)
               (map (descriptorOf ''static'' \<circ> itemOf ''static'') staticDescriptors)
               (map (descriptorOf ''proxy'' \<circ> itemOf ''proxy'') proxyDescriptors) certEntries fs'
             = Inr (fs', ntc)"
proof -
  let ?lines = "configLines env serverDescriptors staticDescriptors proxyDescriptors certEntries"
  let ?content = "joinWith [CHR 0x0A] ?lines"
  have w: "writable fs (CONFIG_PATH env)"
    and fs': "fs' = fs\<lparr>files := (files fs)(CONFIG_PATH env \<mapsto> ?content)\<rparr>"
    and n: "ntc = [WroteConfig (CONFIG_PATH env)]"
    using assms(4) by (auto simp: writeConfigFile_def Let_def split: if_splits)
  have f: "files fs' (CONFIG_PATH env) = Some ?content" unfolding fs' by simp
  let ?entries = "map (entryOf ''proxy'') proxyDescriptors
                @ map (entryOf ''static'') staticDescriptors
                @ map (entryOf ''express'') serverDescriptors"
  have loop: "configLoop (splitLines ?content) ([], None) = Inr (?entries, None)"
    by (rule configLoop_written [OF assms(1-3)])
  have fl: "fst (flush (?entries, None)) = ?entries" by (simp add: flush_def)
  note me = mapEntries_entryOf [OF assms(1)] mapEntries_entryOf [OF assms(2)]
    mapEntries_entryOf [OF assms(3)]
  have m1: "mapEntries env ''express'' ?entries = map (itemOf ''express'') serverDescriptors"
    by (simp add: mapEntries_append me)
  have m2: "mapEntries env ''static'' ?entries = map (itemOf ''static'') staticDescriptors"
    by (simp add: mapEntries_append me)
  have m3: "mapEntries env ''proxy'' ?entries = map (itemOf ''proxy'') proxyDescriptors"
    by (simp add: mapEntries_append me)
  have parse: "parseConfigFile env fs'
           = Inr \<lparr>pc_servers = map (itemOf ''express'') serverDescriptors,
                  pc_statics = map (itemOf ''static'') staticDescriptors,
                  pc_proxies = map (itemOf ''proxy'') proxyDescriptors\<rparr>"
    unfolding parseConfigFile_def f option.case loop sum.case Let_def fl m1 m2 m3 ..
  have w': "writable fs' (CONFIG_PATH env)" unfolding fs' using w by simp
  have same: "fs'\<lparr>files := (files fs')(CONFIG_PATH env \<mapsto> ?content)\<rparr> = fs'"
    unfolding fs' by simp
  have again: "writeConfigFile env
               (map (descriptorOf ''express'' \<circ> itemOf ''express'') serverDescriptors)
               (map (descriptorOf ''static'' \<circ> itemOf ''static'') staticDescriptors)
               (map (descriptorOf ''proxy'' \<circ> itemOf ''proxy'') proxyDescriptors) certEntries fs'
             = Inr (fs', ntc)"
    unfolding writeConfigFile_def configLines_read_back [OF assms(1-3)] Let_def
    using w' same n by simp
  show ?thesis using parse again by (rule conjI)
qed

theorem config_write_then_parse_witness:
  "(case writeConfigFile
          \<lparr>CONFIG_PATH = ''/opt/hts/https-expresses.cfg'', moduleDir = ''/opt/hts'',
           pathJoin = (\<lambda>a b. a @ ''/'' @ b)\<rparr>
          [\<lparr>d_type = ''express'', d_filename = ''app.hts.js'',
            d_absolutePath = ''/srv/app/app.hts.js'', d_domains = [''example.com''],
            d_target = None\<rparr>]
          [\<lparr>d_type = ''static'', d_filename = ''site.static.hts'',
            d_absolutePath = ''/srv/site/site.static.hts'', d_domains = [], d_target = None\<rparr>]
          [\<lparr>d_type = ''proxy'', d_filename = ''a.com.3000.proxy.hts'',
            d_absolutePath = ''/srv/a.com.3000.proxy.hts'', d_domains = [''a.com'', ''www.a.com''],
            d_target = Some ''3000''\<rparr>]
          [\<lparr>ce_domains = [''*.a.com''], ce_source = ''/etc/letsencrypt/live/a.com''\<rparr>]
          \<lparr>files = Map.empty, writable = (\<lambda>p. True)\<rparr> of
      Inl e \<Rightarrow> None
    | Inr (fs', ntc) \<Rightarrow>
        Some (parseConfigFile
          \<lparr>CONFIG_PATH = ''/opt/hts/https-expresses.cfg'', moduleDir = ''/opt/hts'',
           pathJoin = (\<lambda>a b. a @ ''/'' @ b)\<rparr> fs'))
   = Some (Inr \<lparr>pc_servers =
                  [\<lparr>ci_absolutePath = ''/srv/app/app.hts.js'', ci_displayName = ''app.hts.js'',
                    ci_domains = [''example.com''], ci_target = None\<rparr>],
                pc_statics =
                  [\<lparr>ci_absolutePath = ''/srv/site/site.static.hts'',
                    ci_displayName = ''site.static.hts'', ci_domains = [], ci_target = None\<rparr>],
                pc_proxies =
                  [\<lparr>ci_absolutePath = ''/srv/a.com.3000.proxy.hts'',
                    ci_displayName = ''a.com.3000.proxy.hts'',
                    ci_domains = [''a.com'', ''www.a.com''], ci_target = Some ''3000''\<rparr>]\<rparr>)"
proof -
  let ?env = "\<lparr>CONFIG_PATH = ''/opt/hts/https-expresses.cfg'', moduleDir = ''/opt/hts'',
           pathJoin = (\<lambda>a b. a @ ''/'' @ b)\<rparr>"
  let ?e = "\<lparr>d_type = ''express'', d_filename = ''app.hts.js'',
            d_absolutePath = ''/srv/app/app.hts.js'', d_domains = [''example.com''],
            d_target = None\<rparr>"
  let ?s = "\<lparr>d_type = ''static'', d_filename = ''site.static.hts'',
            d_absolutePath = ''/srv/site/site.static.hts'', d_domains = [], d_target = None\<rparr>"
  let ?p = "\<lparr>d_type = ''proxy'', d_filename = ''a.com.3000.proxy.hts'',
            d_absolutePath = ''/srv/a.com.3000.proxy.hts'', d_domains = [''a.com'', ''www.a.com''],
            d_target = Some ''3000''\<rparr>"
  let ?ce = "[\<lparr>ce_domains = [''*.a.com''], ce_source = ''/etc/letsencrypt/live/a.com''\<rparr>]"
  let ?fs = "\<lparr>files = Map.empty, writable = (\<lambda>p. True)\<rparr>"
  have we: "list_all wellFormed [?e]" by code_simp
  have ws: "list_all wellFormed [?s]" by code_simp
  have wp: "list_all wellFormed [?p]" by code_simp
  obtain fs' ntc where w: "writeConfigFile ?env [?e] [?s] [?p] ?ce ?fs = Inr (fs', ntc)"
    by (simp add: writeConfigFile_def Let_def)
  have b1: "basename ''/srv/app/app.hts.js'' = ''app.hts.js''" by code_simp
  have b2: "basename ''/srv/site/site.static.hts'' = ''site.static.hts''" by code_simp
  have b3: "basename ''/srv/a.com.3000.proxy.hts'' = ''a.com.3000.proxy.hts''" by code_simp
  from config_write_then_parse [OF we ws wp w]
  have "parseConfigFile ?env fs'
           = Inr \<lparr>pc_servers = map (itemOf ''express'') [?e],
                  pc_statics = map (itemOf ''static'') [?s],
                  pc_proxies = map (itemOf ''proxy'') [?p]\<rparr>"
    by (rule conjunct1)
  then show ?thesis unfolding w by (simp add: itemOf_def b1 b2 b3)
qed

text \<open>
  The claim C9 as first stated covers any descriptor sets. An application descriptor whose
  module declares the domain \<open>example.com \<close> with a trailing space shows otherwise:
  the file is written with the space, and read back without it.
\<close>

theorem config_round_trip_trims_domain:
  "map_sum id (map ci_domains \<circ> pc_servers)
     (case writeConfigFile
          \<lparr>CONFIG_PATH = ''/opt/hts/https-expresses.cfg'', moduleDir = ''/opt/hts'',
           pathJoin = (\<lambda>a b. a @ ''/'' @ b)\<rparr>
          [\<lparr>d_type = ''express'', d_filename = ''app.hts.js'',
            d_absolutePath = ''/srv/app/app.hts.js'', d_domains = [''example.com ''],
            d_target = None\<rparr>] [] [] []
          \<lparr>files = Map.empty, writable = (\<lambda>p. True)\<rparr> of
      Inl e \<Rightarrow> Inl e
    | Inr (fs', ntc) \<Rightarrow>
        parseConfigFile
          \<lparr>CONFIG_PATH = ''/opt/hts/https-expresses.cfg'', moduleDir = ''/opt/hts'',
           pathJoin = (\<lambda>a b. a @ ''/'' @ b)\<rparr> fs')
   = Inr [[''example.com'']]
   \<and> [[''example.com'']] \<noteq> [[''example.com '']]"
  by code_simp

end
